theory Spec2Isabelle
  imports Main
begin

section \<open>Collaborative room page and client-side executor\<close>

text \<open>
  A shallow embedding of \<^verbatim>\<open>frontend/app/room/[roomId]/page.jsx\<close> (the message
  handler, \<^verbatim>\<open>handleCodeChange\<close>, \<^verbatim>\<open>handleCursorChange\<close>), of the way
  \<^verbatim>\<open>frontend/components/code-editor.jsx\<close> calls these handlers, and of
  \<^verbatim>\<open>frontend/lib/code-executor.js\<close> (\<^verbatim>\<open>executeJavaScript\<close>,
  \<^verbatim>\<open>executeCode\<close>).

  Conventions of the embedding.
  \<^item> A JavaScript property that may be \<^verbatim>\<open>undefined\<close> is an \<open>option\<close>; \<open>None\<close> is
    \<^verbatim>\<open>undefined\<close> (or \<^verbatim>\<open>null\<close> for a ref).
  \<^item> React state and refs are fields of one record; a state setter takes effect before the
    next event is handled. A ref is read where the code reads it. A state variable that a
    \<^verbatim>\<open>useCallback\<close> handler reads is read from the closure of the render the handler
    was made in, and the handler the editor calls is the one it was given when it was
    created: these captured values are a parameter of the handler.
  \<^item> Time is a natural number of milliseconds. \<^verbatim>\<open>setTimeout\<close> and
    \<^verbatim>\<open>clearTimeout\<close> act on a table of pending timers; a timer runs at its due time,
    and before an event that comes at that same time. A timer id is a positive number, so a
    ref that holds one is truthy.
  \<^item> An exception thrown while a message is handled ends the page (there is no error
    boundary): a fault carries no state.
  \<^item> Calls of \<^verbatim>\<open>sendMessage\<close> and \<^verbatim>\<open>updateRoomCode\<close> are recorded, with the time of
    the call, in a trace. Whether the socket is open when \<^verbatim>\<open>sendMessage\<close> is called is
    outside the model.
\<close>

subsection \<open>Messages\<close>

text \<open>The \<^verbatim>\<open>data\<close> object of a message: every property the page reads or writes.\<close>

record payload =
  d_code :: "string option"
  d_language :: "string option"
  d_oderId :: "string option"
  d_username :: "string option"
  d_position :: "int option"
  d_selectionStart :: "int option"
  d_selectionEnd :: "int option"
  d_cursorColor :: "string option"
  d_selectionColor :: "string option"
  d_isTyping :: "bool option"

definition no_data :: payload where
  "no_data = \<lparr>d_code = None, d_language = None, d_oderId = None, d_username = None,
     d_position = None, d_selectionStart = None, d_selectionEnd = None,
     d_cursorColor = None, d_selectionColor = None, d_isTyping = None\<rparr>"

text \<open>A message \<^verbatim>\<open>{ type, data, username }\<close>.\<close>

record message =
  mtype :: string
  mdata :: "payload option"
  musername :: "string option"

record participant =
  p_id :: string
  p_username :: string
  p_cursorColor :: "string option"
  p_selectionColor :: "string option"
  p_isCurrentUser :: bool
  p_isTyping :: "bool option"

text \<open>What the editor passes to \<^verbatim>\<open>onCursorChange\<close>.\<close>

record cursor_data =
  position :: int
  selectionStart :: int
  selectionEnd :: int

subsection \<open>Timers, effects and the state of the page\<close>

text \<open>
  The four closures the page hands to \<^verbatim>\<open>setTimeout\<close>, with the variables each one
  captures: the typing timeout (\<^verbatim>\<open>username\<close>), the trailing code flush, the persistence
  write (\<^verbatim>\<open>roomId\<close>, \<^verbatim>\<open>newCode\<close>) and the trailing cursor flush.
\<close>

datatype callback =
  TypingStopCb string
  | CodeFlushCb
  | PersistCb string string
  | CursorFlushCb

record timer =
  tid :: nat
  due :: nat
  cb :: callback

datatype effect =
  SendMessage message
  | UpdateRoomCode string string

text \<open>
  What the two handlers handed to the editor read from the render they were made in:
  \<^verbatim>\<open>isTyping\<close>, \<^verbatim>\<open>username\<close> and \<^verbatim>\<open>roomId\<close> (\<^verbatim>\<open>handleCodeChange\<close>),
  \<^verbatim>\<open>currentUserId\<close> and \<^verbatim>\<open>participants\<close> (\<^verbatim>\<open>handleCursorChange\<close>).
\<close>

record closure =
  cl_isTyping :: bool
  cl_username :: string
  cl_roomId :: string
  cl_currentUserId :: string
  cl_participants :: "participant list"

text \<open>
  The state of the page. Besides the React state and the refs of \<^verbatim>\<open>page.jsx\<close>:
  \<open>editor\<close> is the closure held by the update listener of the mounted editor, if one is
  mounted; \<open>joinsInFlight\<close> counts the \<^verbatim>\<open>joinRoom\<close> calls of the \<^verbatim>\<open>join\<close> case that
  have not resolved yet; then the clock, the timer table and the trace.
\<close>

record room_state =
  roomId :: string
  username :: string
  code :: "string option"
  language :: "string option"
  participants :: "participant list"
  remoteCursors :: "payload list"
  currentUserId :: string
  isTyping :: bool
  isRemoteUpdateRef :: bool
  persistTimerRef :: "nat option"
  codeThrottleRef :: "nat option"
  cursorThrottleRef :: "nat option"
  pendingCodeRef :: "string option"
  pendingCursorRef :: "message option"
  typingTimeoutRef :: "nat option"
  editor :: "closure option"
  joinsInFlight :: nat
  now :: nat
  timers :: "timer list"
  nextTimerId :: nat
  trace :: "(nat \<times> effect) list"

definition CODE_PERSIST_DEBOUNCE_MS :: nat where
  "CODE_PERSIST_DEBOUNCE_MS = 1000"

definition CODE_WS_THROTTLE_MS :: nat where
  "CODE_WS_THROTTLE_MS = 50"

definition CURSOR_WS_THROTTLE_MS :: nat where
  "CURSOR_WS_THROTTLE_MS = 100"

text \<open>
  The state after the \<^verbatim>\<open>useState\<close> and \<^verbatim>\<open>useRef\<close> initialisers, for a room and a
  user whose name is in \<^verbatim>\<open>localStorage\<close>; the page shows "Loading room..." and no editor.
\<close>

definition initial_state :: "string \<Rightarrow> string \<Rightarrow> room_state" where
  "initial_state r u = \<lparr>roomId = r, username = u, code = Some [], language = Some ''javascript'',
     participants = [], remoteCursors = [], currentUserId = [], isTyping = False,
     isRemoteUpdateRef = False, persistTimerRef = None, codeThrottleRef = None,
     cursorThrottleRef = None, pendingCodeRef = None, pendingCursorRef = None,
     typingTimeoutRef = None, editor = None, joinsInFlight = 0, now = 0, timers = [],
     nextTimerId = 1, trace = []\<rparr>"

text \<open>
  The values a handler made in the current render captures, and the creation of the
  editor's update listener (the effect of \<^verbatim>\<open>code-editor.jsx\<close> with dependencies
  \<^verbatim>\<open>[language]\<close>), which keeps the \<^verbatim>\<open>onChange\<close> and \<^verbatim>\<open>onCursorChange\<close> of that
  render until the language changes.
\<close>

definition render_closure :: "room_state \<Rightarrow> closure" where
  "render_closure s = \<lparr>cl_isTyping = isTyping s, cl_username = username s, cl_roomId = roomId s,
     cl_currentUserId = currentUserId s, cl_participants = participants s\<rparr>"

definition mountEditor :: "room_state \<Rightarrow> room_state" where
  "mountEditor s = s\<lparr>editor := Some (render_closure s)\<rparr>"

text \<open>
  \<^verbatim>\<open>initRoom\<close> when \<^verbatim>\<open>joinRoom\<close> succeeds with the room's code, language and
  participants: the state is set, loading ends and the editor is mounted.
\<close>

definition roomLoaded :: "string \<Rightarrow> string \<Rightarrow> participant list \<Rightarrow> room_state \<Rightarrow> room_state" where
  "roomLoaded c l ps s =
     mountEditor (s\<lparr>code := Some c, language := Some l, participants := ps,
       currentUserId := (case find p_isCurrentUser ps of
                           Some currentUser \<Rightarrow> p_id currentUser
                         | None \<Rightarrow> currentUserId s)\<rparr>)"

definition sendMessage :: "message \<Rightarrow> room_state \<Rightarrow> room_state" where
  "sendMessage m s = s\<lparr>trace := trace s @ [(now s, SendMessage m)]\<rparr>"

definition updateRoomCode :: "string \<Rightarrow> string \<Rightarrow> room_state \<Rightarrow> room_state" where
  "updateRoomCode r c s = s\<lparr>trace := trace s @ [(now s, UpdateRoomCode r c)]\<rparr>"

text \<open>\<^verbatim>\<open>setTimeout\<close> returns the id of the new timer; ids are never reused.\<close>

definition setTimeout :: "callback \<Rightarrow> nat \<Rightarrow> room_state \<Rightarrow> nat \<times> room_state" where
  "setTimeout c d s =
     (nextTimerId s,
      s\<lparr>timers := timers s @ [\<lparr>tid = nextTimerId s, due = now s + d, cb = c\<rparr>],
        nextTimerId := Suc (nextTimerId s)\<rparr>)"

text \<open>\<^verbatim>\<open>clearTimeout\<close> of an id that is no longer pending does nothing.\<close>

definition clearTimeout :: "nat \<Rightarrow> room_state \<Rightarrow> room_state" where
  "clearTimeout i s = s\<lparr>timers := filter (\<lambda>tm. tid tm \<noteq> i) (timers s)\<rparr>"

text \<open>The outbound messages the page builds.\<close>

definition typing_start_msg :: "string \<Rightarrow> message" where
  "typing_start_msg u =
     \<lparr>mtype = ''typing-start'', mdata = Some (no_data\<lparr>d_username := Some u\<rparr>), musername = None\<rparr>"

definition typing_stop_msg :: "string \<Rightarrow> message" where
  "typing_stop_msg u =
     \<lparr>mtype = ''typing-stop'', mdata = Some (no_data\<lparr>d_username := Some u\<rparr>), musername = None\<rparr>"

definition code_update_msg :: "string \<Rightarrow> message" where
  "code_update_msg c =
     \<lparr>mtype = ''code-update'', mdata = Some (no_data\<lparr>d_code := Some c\<rparr>), musername = None\<rparr>"

definition cursor_update_msg :: "string \<Rightarrow> participant \<Rightarrow> cursor_data \<Rightarrow> message" where
  "cursor_update_msg uid currentUser cursorData =
     \<lparr>mtype = ''cursor-update'',
      mdata = Some (no_data\<lparr>d_oderId := Some uid,
        d_username := Some (p_username currentUser),
        d_position := Some (position cursorData),
        d_selectionStart := Some (selectionStart cursorData),
        d_selectionEnd := Some (selectionEnd cursorData),
        d_cursorColor := p_cursorColor currentUser,
        d_selectionColor := p_selectionColor currentUser\<rparr>),
      musername = None\<rparr>"

subsection \<open>The timer callbacks and the event loop\<close>

fun run_callback :: "callback \<Rightarrow> room_state \<Rightarrow> room_state" where
  "run_callback (TypingStopCb u) s = sendMessage (typing_stop_msg u) (s\<lparr>isTyping := False\<rparr>)"
| "run_callback CodeFlushCb s =
     (let s1 = (case pendingCodeRef s of
                  Some c \<Rightarrow> (sendMessage (code_update_msg c) s)\<lparr>pendingCodeRef := None\<rparr>
                | None \<Rightarrow> s)
      in s1\<lparr>codeThrottleRef := None\<rparr>)"
| "run_callback (PersistCb r c) s = updateRoomCode r c s"
| "run_callback CursorFlushCb s =
     (let s1 = (case pendingCursorRef s of
                  Some m \<Rightarrow> (sendMessage m s)\<lparr>pendingCursorRef := None\<rparr>
                | None \<Rightarrow> s)
      in s1\<lparr>cursorThrottleRef := None\<rparr>)"

text \<open>
  The pending timer that runs next when the clock moves to \<open>t\<close>: among the timers due by
  \<open>t\<close>, the one due first, and among those the one set first.
\<close>

definition next_due :: "nat \<Rightarrow> timer list \<Rightarrow> timer option" where
  "next_due t tms =
     (case filter (\<lambda>tm. due tm \<le> t) tms of
        [] \<Rightarrow> None
      | x # xs \<Rightarrow> Some (foldl (\<lambda>a b. if due b < due a then b else a) x xs))"

text \<open>
  Running a timer: it leaves the table, the clock has reached its due time, its closure
  runs.
\<close>

definition fire :: "timer \<Rightarrow> room_state \<Rightarrow> room_state" where
  "fire tm s =
     run_callback (cb tm) (s\<lparr>now := max (now s) (due tm), timers := remove1 tm (timers s)\<rparr>)"

lemma timers_run_callback: "timers (run_callback c s) = timers s"
  by (cases c) (simp_all add: sendMessage_def updateRoomCode_def Let_def split: option.splits)

lemma foldl_earlier_mem:
  "foldl (\<lambda>a b. if due b < due a then b else a) x xs \<in> set (x # xs)"
proof (induction xs arbitrary: x)
  case Nil
  show ?case by simp
next
  case (Cons y ys)
  have "foldl (\<lambda>a b. if due b < due a then b else a) (if due y < due x then y else x) ys
          \<in> set ((if due y < due x then y else x) # ys)"
    by (rule Cons.IH)
  then show ?case by (auto split: if_splits)
qed

lemma next_due_mem:
  fixes tms :: "timer list"
  assumes a: "next_due t tms = Some tm"
  shows "tm \<in> set tms \<and> due tm \<le> t"
proof -
  obtain x xs where f: "filter (\<lambda>tm. due tm \<le> t) tms = x # xs"
    using a by (cases "filter (\<lambda>tm. due tm \<le> t) tms") (simp_all add: next_due_def)
  with a have "tm = foldl (\<lambda>a b. if due b < due a then b else a) x xs"
    by (simp add: next_due_def)
  then have "tm \<in> set (x # xs)"
    using foldl_earlier_mem by blast
  then have "tm \<in> set (filter (\<lambda>tm. due tm \<le> t) tms)"
    using f by simp
  then show ?thesis by simp
qed

lemma next_due_None:
  fixes tms :: "timer list"
  shows "next_due t tms = None \<longleftrightarrow> (\<forall>tm\<in>set tms. t < due tm)"
proof (cases "filter (\<lambda>tm. due tm \<le> t) tms")
  case Nil
  then show ?thesis by (simp add: next_due_def filter_empty_conv not_le)
next
  case (Cons x xs)
  then have "x \<in> set (filter (\<lambda>tm. due tm \<le> t) tms)" by simp
  then have "x \<in> set tms" and "\<not> t < due x" by simp_all
  then have "\<not> (\<forall>tm\<in>set tms. t < due tm)" by blast
  then show ?thesis using Cons by (simp add: next_due_def)
qed

text \<open>The event loop up to time \<open>t\<close>: run the due timers one at a time, in due order.\<close>

function run_timers :: "nat \<Rightarrow> room_state \<Rightarrow> room_state" where
  "run_timers t s =
     (case next_due t (timers s) of
        None \<Rightarrow> s
      | Some tm \<Rightarrow> run_timers t (fire tm s))"
  by pat_completeness auto
termination
proof (relation "measure (\<lambda>(t, s). length (timers s))")
  show "wf (measure (\<lambda>(t, s). length (timers s)))" by simp
next
  fix t :: nat and s :: room_state and tm :: timer
  assume "next_due t (timers s) = Some tm"
  then have "tm \<in> set (timers s)" by (simp add: next_due_mem)
  then have "length (remove1 tm (timers s)) < length (timers s)"
    by (simp add: length_remove1) (cases "timers s"; simp)
  then show "((t, fire tm s), (t, s)) \<in> measure (\<lambda>(t, s). length (timers s))"
    by (simp add: fire_def timers_run_callback)
qed

declare run_timers.simps [simp del]

text \<open>Letting the clock reach \<open>t\<close>, and letting \<open>d\<close> milliseconds pass.\<close>

definition advance :: "nat \<Rightarrow> room_state \<Rightarrow> room_state" where
  "advance t s = (let s' = run_timers t s in s'\<lparr>now := max (now s') t\<rparr>)"

definition wait :: "nat \<Rightarrow> room_state \<Rightarrow> room_state" where
  "wait d s = advance (now s + d) s"

subsection \<open>Local edits: \<^verbatim>\<open>handleCodeChange\<close> and \<^verbatim>\<open>handleCursorChange\<close>\<close>

text \<open>
  \<^verbatim>\<open>handleCodeChange(newCode)\<close>, as made in a render with the captured values \<open>cl\<close>,
  statement by statement: the typing indicator, the throttled broadcast, the debounced
  persistence, all skipped when \<^verbatim>\<open>isRemoteUpdateRef.current\<close> is set; the flag is cleared
  on the way out. The refs are read from the state, \<^verbatim>\<open>isTyping\<close>, \<^verbatim>\<open>username\<close> and
  \<^verbatim>\<open>roomId\<close> from the closure.
\<close>

definition handleCodeChange :: "closure \<Rightarrow> string \<Rightarrow> room_state \<Rightarrow> room_state" where
  "handleCodeChange cl newCode s0 =
     (let s1 = s0\<lparr>code := Some newCode\<rparr>;
          s9 =
            (if \<not> isRemoteUpdateRef s1 then
               let s2 = (if \<not> cl_isTyping cl
                         then sendMessage (typing_start_msg (cl_username cl)) (s1\<lparr>isTyping := True\<rparr>)
                         else s1);
                   s3 = (case typingTimeoutRef s2 of Some i \<Rightarrow> clearTimeout i s2 | None \<Rightarrow> s2);
                   (i4, s4) = setTimeout (TypingStopCb (cl_username cl)) 3000 s3;
                   s5 = s4\<lparr>typingTimeoutRef := Some i4, pendingCodeRef := Some newCode\<rparr>;
                   s6 = (if codeThrottleRef s5 = None then
                           let (i, s) = setTimeout CodeFlushCb CODE_WS_THROTTLE_MS
                                          (sendMessage (code_update_msg newCode) s5)
                           in s\<lparr>codeThrottleRef := Some i\<rparr>
                         else s5);
                   s7 = (case persistTimerRef s6 of Some i \<Rightarrow> clearTimeout i s6 | None \<Rightarrow> s6);
                   (i8, s8) = setTimeout (PersistCb (cl_roomId cl) newCode) CODE_PERSIST_DEBOUNCE_MS s7
               in s8\<lparr>persistTimerRef := Some i8\<rparr>
             else s1)
      in s9\<lparr>isRemoteUpdateRef := False\<rparr>)"

text \<open>
  \<^verbatim>\<open>handleCursorChange(cursorData)\<close>, as made in a render with the captured values
  \<open>cl\<close>: nothing without a current user; otherwise the pending message is replaced and,
  when no flush is scheduled, one is scheduled. \<^verbatim>\<open>currentUserId\<close> and
  \<^verbatim>\<open>participants\<close> are read from the closure.
\<close>

definition handleCursorChange :: "closure \<Rightarrow> cursor_data \<Rightarrow> room_state \<Rightarrow> room_state" where
  "handleCursorChange cl cursorData s =
     (if cl_currentUserId cl = [] then s
      else case find p_isCurrentUser (cl_participants cl) of
             None \<Rightarrow> s
           | Some currentUser \<Rightarrow>
               let s1 = s\<lparr>pendingCursorRef :=
                          Some (cursor_update_msg (cl_currentUserId cl) currentUser cursorData)\<rparr>
               in if cursorThrottleRef s1 = None then
                    let (i, s2) = setTimeout CursorFlushCb CURSOR_WS_THROTTLE_MS s1
                    in s2\<lparr>cursorThrottleRef := Some i\<rparr>
                  else s1)"

subsection \<open>Inbound messages\<close>

text \<open>
  Reading a property of \<^verbatim>\<open>data\<close> when the message has no \<^verbatim>\<open>data\<close> raises a
  \<^verbatim>\<open>TypeError\<close>.
\<close>

datatype fault = TypeError

text \<open>
  The body of the effect that handles \<^verbatim>\<open>lastMessage\<close> (the effect is made anew in every
  render whose \<^verbatim>\<open>username\<close> changed, so it reads the current one). The \<^verbatim>\<open>join\<close> case
  only starts a \<^verbatim>\<open>joinRoom\<close> call; its \<^verbatim>\<open>then\<close> callback is \<open>joinResolved\<close> below and
  runs when the call resolves, which can be after later messages. A \<^verbatim>\<open>switch\<close> without
  a matching case does nothing.
\<close>

definition handleMessage :: "message \<Rightarrow> room_state \<Rightarrow> fault + room_state" where
  "handleMessage m s =
     (if mtype m = ''code-update'' then
        (case mdata m of
           None \<Rightarrow> Inl TypeError
         | Some d \<Rightarrow> Inr (s\<lparr>isRemoteUpdateRef := True, code := d_code d\<rparr>))
      else if mtype m = ''language-update'' then
        (case mdata m of
           None \<Rightarrow> Inl TypeError
         | Some d \<Rightarrow> Inr (s\<lparr>isRemoteUpdateRef := True, language := d_language d, code := d_code d\<rparr>))
      else if mtype m = ''cursor-update'' then
        (case mdata m of
           None \<Rightarrow> Inl TypeError
         | Some d \<Rightarrow>
             if d_username d = Some (username s) then Inr s
             else Inr (s\<lparr>remoteCursors :=
                          filter (\<lambda>c. d_oderId c \<noteq> d_oderId d) (remoteCursors s) @ [d]\<rparr>))
      else if mtype m = ''join'' then
        Inr (s\<lparr>joinsInFlight := Suc (joinsInFlight s)\<rparr>)
      else if mtype m = ''leave'' then
        Inr (s\<lparr>participants := filter (\<lambda>p. Some (p_username p) \<noteq> musername m) (participants s),
               remoteCursors := filter (\<lambda>c. d_username c \<noteq> musername m) (remoteCursors s)\<rparr>)
      else if mtype m = ''participant-typing'' then
        (case mdata m of
           None \<Rightarrow> Inl TypeError
         | Some d \<Rightarrow>
             if d_username d \<noteq> Some (username s) then
               Inr (s\<lparr>participants :=
                       map (\<lambda>p. if Some (p_username p) = d_username d
                                then p\<lparr>p_isTyping := d_isTyping d\<rparr> else p)
                           (participants s)\<rparr>)
             else Inr s)
      else Inr s)"

text \<open>
  The \<^verbatim>\<open>then\<close> callback of a \<^verbatim>\<open>joinRoom\<close> call of the \<^verbatim>\<open>join\<close> case, run when the
  call resolves with the answer \<open>res\<close>: \<open>Some ps\<close> when \<^verbatim>\<open>res.success\<close> holds and
  \<^verbatim>\<open>res.room.participants\<close> is \<open>ps\<close> (\<^verbatim>\<open>joinRoom\<close> turns a failed request into an
  answer without \<^verbatim>\<open>success\<close>). Nothing resolves when no call is in flight.
\<close>

definition joinResolved :: "participant list option \<Rightarrow> room_state \<Rightarrow> room_state" where
  "joinResolved res s =
     (if joinsInFlight s = 0 then s
      else case res of
             Some ps \<Rightarrow> s\<lparr>participants := ps, joinsInFlight := joinsInFlight s - 1\<rparr>
           | None \<Rightarrow> s\<lparr>joinsInFlight := joinsInFlight s - 1\<rparr>)"

text \<open>Handling a sequence of messages; a fault ends it.\<close>

fun handleMessages :: "message list \<Rightarrow> room_state \<Rightarrow> fault + room_state" where
  "handleMessages [] s = Inr s"
| "handleMessages (m # ms) s =
     (case handleMessage m s of
        Inl e \<Rightarrow> Inl e
      | Inr s' \<Rightarrow> handleMessages ms s')"

subsection \<open>Sequences of local events\<close>

text \<open>
  A local event comes with the time that passed since the previous one: \<open>(d, c)\<close> is
  "after \<open>d\<close> more milliseconds, in which the timers that came due have run, the editor
  reports \<open>c\<close>". The editor calls the same closure \<open>cl\<close> every time.
\<close>

fun run_edits :: "closure \<Rightarrow> (nat \<times> string) list \<Rightarrow> room_state \<Rightarrow> room_state" where
  "run_edits cl [] s = s"
| "run_edits cl ((d, c) # es) s = run_edits cl es (handleCodeChange cl c (wait d s))"


text \<open>
  Any history of the page with its editor: edits and cursor moves of the user, inbound
  messages, \<^verbatim>\<open>joinRoom\<close> calls resolving, and the passing of time, in any order.

  The editor calls the handlers it holds, and only for the user's own changes: when its
  \<^verbatim>\<open>value\<close> prop changes it sets \<^verbatim>\<open>isExternalUpdate\<close> and its update listener does not
  call \<^verbatim>\<open>onChange\<close> (\<^verbatim>\<open>code-editor.jsx\<close>), so handling a message calls no handler.
  When a message changes the language the editor is created anew, with the handlers of
  that render.
\<close>

datatype event =
  Edit string
  | CursorMove cursor_data
  | Message message
  | JoinResolved "participant list option"
  | Wait nat

fun apply_event :: "event \<Rightarrow> room_state \<Rightarrow> fault + room_state" where
  "apply_event (Edit c) s =
     (case editor s of None \<Rightarrow> Inr s | Some cl \<Rightarrow> Inr (handleCodeChange cl c s))"
| "apply_event (CursorMove cd) s =
     (case editor s of None \<Rightarrow> Inr s | Some cl \<Rightarrow> Inr (handleCursorChange cl cd s))"
| "apply_event (Message m) s =
     (case handleMessage m s of
        Inl x \<Rightarrow> Inl x
      | Inr s' \<Rightarrow>
          Inr (if language s' \<noteq> language s \<and> editor s' \<noteq> None then mountEditor s' else s'))"
| "apply_event (JoinResolved res) s = Inr (joinResolved res s)"
| "apply_event (Wait d) s = Inr (wait d s)"

fun run_events :: "event list \<Rightarrow> room_state \<Rightarrow> fault + room_state" where
  "run_events [] s = Inr s"
| "run_events (e # es) s =
     (case apply_event e s of
        Inl x \<Rightarrow> Inl x
      | Inr s' \<Rightarrow> run_events es s')"

subsection \<open>The executor: \<^verbatim>\<open>code-executor.js\<close>\<close>

text \<open>
  What evaluating the wrapped user code does is the parameter of the executor: the calls of
  the sandboxed \<^verbatim>\<open>console\<close> it makes, in order, and how the call
  \<^verbatim>\<open>fn.call(sandbox)\<close> ends. A console argument is \<^verbatim>\<open>null\<close>,
  \<^verbatim>\<open>undefined\<close>, an object (with its \<^verbatim>\<open>JSON.stringify\<close> text, if that call
  succeeds, and its \<^verbatim>\<open>String\<close> text) or any other value (with its
  \<^verbatim>\<open>String\<close> text).
\<close>

datatype js_value =
  JNull
  | JUndefined
  | JObject "string option" string
  | JPrimitive string

fun formatValue :: "js_value \<Rightarrow> string" where
  "formatValue JNull = ''null''"
| "formatValue JUndefined = ''undefined''"
| "formatValue (JObject (Some json) str) = json"
| "formatValue (JObject None str) = str"
| "formatValue (JPrimitive str) = str"

fun join :: "string \<Rightarrow> string list \<Rightarrow> string" where
  "join sep [] = []"
| "join sep [x] = x"
| "join sep (x # y # ys) = x @ sep @ join sep (y # ys)"

datatype console_method = ConsoleLog | ConsoleError | ConsoleWarn | ConsoleInfo

fun log_line :: "console_method \<times> js_value list \<Rightarrow> string" where
  "log_line (ConsoleLog, args) = join '' '' (map formatValue args)"
| "log_line (ConsoleError, args) = ''Error: '' @ join '' '' (map formatValue args)"
| "log_line (ConsoleWarn, args) = ''Warning: '' @ join '' '' (map formatValue args)"
| "log_line (ConsoleInfo, args) = join '' '' (map formatValue args)"

text \<open>
  A thrown value, as the \<^verbatim>\<open>catch\<close> block sees it through \<^verbatim>\<open>error.message\<close>: a
  value whose \<^verbatim>\<open>message\<close> is a string (every \<^verbatim>\<open>Error\<close>), a value without a
  \<^verbatim>\<open>message\<close> (a thrown string or number), or \<^verbatim>\<open>null\<close>/\<^verbatim>\<open>undefined\<close>, on
  which reading \<^verbatim>\<open>message\<close> raises a \<^verbatim>\<open>TypeError\<close> inside the
  \<^verbatim>\<open>catch\<close> block. The wrapped code returns, throws, or loops for ever; a code string
  that does not parse makes \<^verbatim>\<open>new Function\<close> throw a \<^verbatim>\<open>SyntaxError\<close>, a throw
  with no console call before it.
\<close>

datatype thrown = WithMessage string | WithoutMessage | NullOrUndefined

datatype completion = Returns | Throws thrown | Diverges

record js_run =
  calls :: "(console_method \<times> js_value list) list"
  completion :: completion

record exec_result =
  r_output :: string
  r_error :: "string option"

text \<open>How a promise ends: resolved with a value, rejected, or never settled.\<close>

datatype 'a promise = Resolved 'a | Rejected string | Pending

definition newline :: string where
  "newline = [CHR 0x0A]"

definition executeJavaScript :: "js_run \<Rightarrow> exec_result promise" where
  "executeJavaScript r =
     (let logs = map log_line (calls r) in
      case completion r of
        Returns \<Rightarrow>
          Resolved \<lparr>r_output = (if logs \<noteq> [] then join newline logs
                               else ''Code executed successfully (no output)''),
                    r_error = None\<rparr>
      | Throws (WithMessage msg) \<Rightarrow>
          Resolved \<lparr>r_output = (if logs \<noteq> [] then join newline logs @ newline @ ''Error: '' @ msg
                               else ''Error: '' @ msg),
                    r_error = Some msg\<rparr>
      | Throws WithoutMessage \<Rightarrow>
          Resolved \<lparr>r_output = (if logs \<noteq> [] then join newline logs @ newline @ ''Error: undefined''
                               else ''Error: undefined''),
                    r_error = None\<rparr>
      | Throws NullOrUndefined \<Rightarrow> Rejected ''TypeError''
      | Diverges \<Rightarrow> Pending)"

text \<open>
  \<^verbatim>\<open>executeCode(code, language)\<close>. The Python evaluator is a parameter: no property
  below depends on it.
\<close>

definition executeCode ::
  "(string \<Rightarrow> js_run) \<Rightarrow> (string \<Rightarrow> exec_result promise) \<Rightarrow> string \<Rightarrow> string
     \<Rightarrow> exec_result promise" where
  "executeCode run_js executePython src lang =
     (if lang = ''javascript'' then executeJavaScript (run_js src)
      else if lang = ''python'' then executePython src
      else Resolved \<lparr>r_output = ''Unsupported language: '' @ lang,
                     r_error = Some ''Unsupported language''\<rparr>)"

subsection \<open>Observations\<close>

text \<open>The message types that have a case in the handler's \<^verbatim>\<open>switch\<close>.\<close>

definition handled_types :: "string list" where
  "handled_types = [''code-update'', ''language-update'', ''cursor-update'', ''join'', ''leave'',
     ''participant-typing'']"

text \<open>
  The cursor entries of identity \<open>i\<close>, and the data of the latest message of a list that
  comes from identity \<open>i\<close> and does not carry the name \<open>u\<close> of the local user.
\<close>

definition entries_of :: "string option \<Rightarrow> payload list \<Rightarrow> payload list" where
  "entries_of i cs = filter (\<lambda>c. d_oderId c = i) cs"

fun latest_cursor :: "string \<Rightarrow> string option \<Rightarrow> message list \<Rightarrow> payload option" where
  "latest_cursor u i [] = None"
| "latest_cursor u i (m # ms) =
     (case latest_cursor u i ms of
        Some d \<Rightarrow> Some d
      | None \<Rightarrow>
          (case mdata m of
             Some d \<Rightarrow> if d_oderId d = i \<and> d_username d \<noteq> Some u then Some d else None
           | None \<Rightarrow> None))"

definition cursor_update_in :: "payload \<Rightarrow> message" where
  "cursor_update_in d = \<lparr>mtype = ''cursor-update'', mdata = Some d, musername = None\<rparr>"

text \<open>
  The four kinds of timer the page uses, each with the ref that holds its id and its delay,
  and the kind of an effect, after the timer that can emit it: the \<^verbatim>\<open>typing-stop\<close>
  messages, the code broadcasts, the persistence writes, the cursor broadcasts.
\<close>

datatype kind = KTyping | KCode | KPersist | KCursor

fun kind_of :: "callback \<Rightarrow> kind" where
  "kind_of (TypingStopCb u) = KTyping"
| "kind_of CodeFlushCb = KCode"
| "kind_of (PersistCb r c) = KPersist"
| "kind_of CursorFlushCb = KCursor"

fun kref :: "kind \<Rightarrow> room_state \<Rightarrow> nat option" where
  "kref KTyping s = typingTimeoutRef s"
| "kref KCode s = codeThrottleRef s"
| "kref KPersist s = persistTimerRef s"
| "kref KCursor s = cursorThrottleRef s"

fun period :: "kind \<Rightarrow> nat" where
  "period KTyping = 3000"
| "period KCode = CODE_WS_THROTTLE_MS"
| "period KPersist = CODE_PERSIST_DEBOUNCE_MS"
| "period KCursor = CURSOR_WS_THROTTLE_MS"

fun ekind :: "effect \<Rightarrow> kind option" where
  "ekind (SendMessage m) =
     (if mtype m = ''typing-stop'' then Some KTyping
      else if mtype m = ''code-update'' then Some KCode
      else if mtype m = ''cursor-update'' then Some KCursor
      else None)"
| "ekind (UpdateRoomCode r c) = Some KPersist"

text \<open>The effects of one kind in a trace, in order, with their times.\<close>

definition proj :: "kind \<Rightarrow> (nat \<times> effect) list \<Rightarrow> (nat \<times> effect) list" where
  "proj k tr = filter (\<lambda>x. ekind (snd x) = Some k) tr"

text \<open>The pending timers of one kind.\<close>

definition ktimers :: "kind \<Rightarrow> room_state \<Rightarrow> timer list" where
  "ktimers k s = filter (\<lambda>tm. kind_of (cb tm) = k) (timers s)"

text \<open>The state a timer of one kind reads and writes, besides the trace and the table.\<close>

datatype kind_data =
  DTyping bool
  | DCode "string option"
  | DPersist
  | DCursor "message option"

fun kdata :: "kind \<Rightarrow> room_state \<Rightarrow> kind_data" where
  "kdata KTyping s = DTyping (isTyping s)"
| "kdata KCode s = DCode (pendingCodeRef s)"
| "kdata KPersist s = DPersist"
| "kdata KCursor s = DCursor (pendingCursorRef s)"

text \<open>
  The states the page can be in: timer ids are unique and older than the next id; the ref
  of a kind holds the id of every pending timer of that kind, and of no timer of another
  kind; a throttle ref is non-null only while its flush is pending; a pending timer is due
  no earlier than now and no later than its delay from now; the pending cursor message is
  a \<^verbatim>\<open>cursor-update\<close>. The initial state satisfies this, and every handler and every
  timer keeps it (lemma \<open>wf_reachable\<close> below).
\<close>

definition wf_state :: "room_state \<Rightarrow> bool" where
  "wf_state s \<longleftrightarrow>
     distinct (map tid (timers s))
     \<and> (\<forall>tm\<in>set (timers s).
           tid tm < nextTimerId s
           \<and> kref (kind_of (cb tm)) s = Some (tid tm)
           \<and> (\<forall>k. kref k s = Some (tid tm) \<longrightarrow> k = kind_of (cb tm))
           \<and> now s \<le> due tm
           \<and> due tm \<le> now s + period (kind_of (cb tm)))
     \<and> (\<forall>k i. kref k s = Some i \<longrightarrow> i < nextTimerId s)
     \<and> (codeThrottleRef s \<noteq> None \<longrightarrow> ktimers KCode s \<noteq> [])
     \<and> (cursorThrottleRef s \<noteq> None \<longrightarrow> ktimers KCursor s \<noteq> [])
     \<and> (\<forall>m. pendingCursorRef s = Some m \<longrightarrow> mtype m = ''cursor-update'')"

text \<open>
  What is pending for one kind (due time and closure, without the ids), and the part of the
  state that belongs to one kind: its effects so far, what is pending, whether its ref is
  null, and its data.
\<close>

definition pend :: "kind \<Rightarrow> room_state \<Rightarrow> (nat \<times> callback) list" where
  "pend k s = map (\<lambda>tm. (due tm, cb tm)) (ktimers k s)"

definition kview ::
  "kind \<Rightarrow> room_state \<Rightarrow> (nat \<times> effect) list \<times> (nat \<times> callback) list \<times> bool \<times> kind_data" where
  "kview k s = (proj k (trace s), pend k s, kref k s = None, kdata k s)"

text \<open>The part of the state that no timer and no local edit changes, and the remote flag.\<close>

definition static ::
  "room_state \<Rightarrow> string \<times> string \<times> participant list \<times> string \<times> bool" where
  "static s = (roomId s, username s, participants s, currentUserId s, isRemoteUpdateRef s)"

text \<open>
  What the closure of a timer emits when it runs at time \<open>n\<close>, and the data it leaves, as a
  function of the data of its kind: this is \<open>run_callback\<close> seen through \<open>kview\<close>.
\<close>

fun fired :: "nat \<Rightarrow> callback \<Rightarrow> kind_data \<Rightarrow> (nat \<times> effect) list \<times> kind_data" where
  "fired n (TypingStopCb u) d = ([(n, SendMessage (typing_stop_msg u))], DTyping False)"
| "fired n CodeFlushCb (DCode (Some c)) = ([(n, SendMessage (code_update_msg c))], DCode None)"
| "fired n CodeFlushCb (DCode None) = ([], DCode None)"
| "fired n (PersistCb r c) d = ([(n, UpdateRoomCode r c)], DPersist)"
| "fired n CursorFlushCb (DCursor (Some m)) = ([(n, SendMessage m)], DCursor None)"
| "fired n CursorFlushCb (DCursor None) = ([], DCursor None)"
| "fired n c d = ([], d)"

text \<open>
  The two idioms the handlers are written in: \<^verbatim>\<open>ref.current = setTimeout(...)\<close> and
  \<^verbatim>\<open>if (ref.current) clearTimeout(ref.current)\<close>.
\<close>

fun set_kref :: "kind \<Rightarrow> nat option \<Rightarrow> room_state \<Rightarrow> room_state" where
  "set_kref KTyping v s = s\<lparr>typingTimeoutRef := v\<rparr>"
| "set_kref KCode v s = s\<lparr>codeThrottleRef := v\<rparr>"
| "set_kref KPersist v s = s\<lparr>persistTimerRef := v\<rparr>"
| "set_kref KCursor v s = s\<lparr>cursorThrottleRef := v\<rparr>"

definition new_timer :: "kind \<Rightarrow> callback \<Rightarrow> room_state \<Rightarrow> timer" where
  "new_timer k c s = \<lparr>tid = nextTimerId s, due = now s + period k, cb = c\<rparr>"

definition schedule :: "kind \<Rightarrow> callback \<Rightarrow> room_state \<Rightarrow> room_state" where
  "schedule k c s = (let (i, s') = setTimeout c (period k) s in set_kref k (Some i) s')"

definition cancel :: "kind \<Rightarrow> room_state \<Rightarrow> room_state" where
  "cancel k s = (case kref k s of Some i \<Rightarrow> clearTimeout i s | None \<Rightarrow> s)"

text \<open>
  The three blocks of \<^verbatim>\<open>handleCodeChange\<close>, in the order of the source: the typing
  indicator, the throttled broadcast, the debounced persistence
  (lemma \<open>handleCodeChange_blocks\<close> below).
\<close>

definition typing_start :: "closure \<Rightarrow> room_state \<Rightarrow> room_state" where
  "typing_start cl s =
     (if \<not> cl_isTyping cl
      then sendMessage (typing_start_msg (cl_username cl)) (s\<lparr>isTyping := True\<rparr>)
      else s)"

definition typing_block :: "closure \<Rightarrow> room_state \<Rightarrow> room_state" where
  "typing_block cl s =
     schedule KTyping (TypingStopCb (cl_username cl)) (cancel KTyping (typing_start cl s))"

definition code_block :: "string \<Rightarrow> room_state \<Rightarrow> room_state" where
  "code_block c s =
     (let s5 = s\<lparr>pendingCodeRef := Some c\<rparr>
      in if codeThrottleRef s = None
         then schedule KCode CodeFlushCb (sendMessage (code_update_msg c) s5)
         else s5)"

definition persist_block :: "closure \<Rightarrow> string \<Rightarrow> room_state \<Rightarrow> room_state" where
  "persist_block cl c s = schedule KPersist (PersistCb (cl_roomId cl) c) (cancel KPersist s)"

text \<open>The guards of \<^verbatim>\<open>handleCursorChange\<close> pass, with \<open>cu\<close> the current user's roster entry.\<close>

definition has_user :: "closure \<Rightarrow> participant \<Rightarrow> bool" where
  "has_user cl cu \<longleftrightarrow>
     cl_currentUserId cl \<noteq> [] \<and> find p_isCurrentUser (cl_participants cl) = Some cu"


subsection \<open>Example inputs\<close>

text \<open>Two updates of the identity \<open>u2\<close>, at positions 10 and then 50, and one of the local user.\<close>

definition bob_at :: "int \<Rightarrow> payload" where
  "bob_at n = no_data\<lparr>d_oderId := Some ''u2'', d_username := Some ''bob'', d_position := Some n\<rparr>"

definition alice_at :: "int \<Rightarrow> payload" where
  "alice_at n = no_data\<lparr>d_oderId := Some ''u1'', d_username := Some ''alice'', d_position := Some n\<rparr>"

text \<open>A room whose roster holds the local user, as after a successful \<^verbatim>\<open>joinRoom\<close>.\<close>

definition alice :: participant where
  "alice = \<lparr>p_id = ''u1'', p_username = ''alice'', p_cursorColor = Some ''#e91e63'',
     p_selectionColor = Some ''rgba(233, 30, 99, 0.3)'', p_isCurrentUser = True,
     p_isTyping = None\<rparr>"


definition room_with_user :: room_state where
  "room_with_user = roomLoaded ''// Initial code'' ''javascript'' [alice] (initial_state ''r'' ''alice'')"

text \<open>The closure its editor holds.\<close>

definition room_closure :: closure where
  "room_closure = \<lparr>cl_isTyping = False, cl_username = ''alice'', cl_roomId = ''r'',
     cl_currentUserId = ''u1'', cl_participants = [alice]\<rparr>"

text \<open>A second participant, and the messages of their joining and leaving.\<close>

definition bob :: participant where
  "bob = \<lparr>p_id = ''u2'', p_username = ''bob'', p_cursorColor = Some ''#2196f3'',
     p_selectionColor = Some ''rgba(33, 150, 243, 0.3)'', p_isCurrentUser = False,
     p_isTyping = None\<rparr>"

definition join_msg :: "string \<Rightarrow> message" where
  "join_msg u = \<lparr>mtype = ''join'', mdata = None, musername = Some u\<rparr>"

definition leave_msg :: "string \<Rightarrow> message" where
  "leave_msg u = \<lparr>mtype = ''leave'', mdata = None, musername = Some u\<rparr>"

text \<open>A \<^verbatim>\<open>code-update\<close> of the second participant, as the server relays it.\<close>

definition remote_update :: message where
  "remote_update = \<lparr>mtype = ''code-update'', mdata = Some (no_data\<lparr>d_code := Some ''remote''\<rparr>),
     musername = Some ''bob''\<rparr>"

section \<open>Properties\<close>

subsection \<open>The executor\<close>

text \<open>
  C8. For every code string and every language other than \<^verbatim>\<open>javascript\<close> and
  \<^verbatim>\<open>python\<close>, \<^verbatim>\<open>executeCode\<close> resolves (it neither rejects nor stays pending) with
  the output \<^verbatim>\<open>Unsupported language: \<close> followed by the language, and with the
  non-empty error \<^verbatim>\<open>Unsupported language\<close>, whatever the two evaluators do.
\<close>

theorem executeCode_unsupported:
  assumes "lang \<noteq> ''javascript''" and "lang \<noteq> ''python''"
  shows "executeCode run_js executePython src lang =
           Resolved \<lparr>r_output = ''Unsupported language: '' @ lang,
                     r_error = Some ''Unsupported language''\<rparr>"
  using assms by (simp add: executeCode_def)

theorem executeCode_unsupported_witness:
  "executeCode (\<lambda>c. \<lparr>calls = [], completion = Returns\<rparr>) (\<lambda>c. Pending) ''fn main() {}'' ''rust'' =
     Resolved \<lparr>r_output = ''Unsupported language: rust'', r_error = Some ''Unsupported language''\<rparr>"
  using executeCode_unsupported [of "''rust''" "\<lambda>c. \<lparr>calls = [], completion = Returns\<rparr>"
      "\<lambda>c. Pending" "''fn main() {}''"]
  by simp

text \<open>
  When the user code throws a value with a message, after the console calls \<open>cs\<close>, the
  result carries the message twice: at the end of the output, after the captured lines, and
  as the error.
\<close>

lemma executeJavaScript_throws_Error:
  "executeJavaScript \<lparr>calls = cs, completion = Throws (WithMessage msg)\<rparr> =
     Resolved \<lparr>r_output = (if cs \<noteq> [] then join newline (map log_line cs) @ newline @ ''Error: '' @ msg
                           else ''Error: '' @ msg),
               r_error = Some msg\<rparr>"
  by (simp add: executeJavaScript_def)

lemma executeJavaScript_Boom:
  "executeJavaScript \<lparr>calls = [], completion = Throws (WithMessage ''Boom'')\<rparr> =
     Resolved \<lparr>r_output = ''Error: Boom'', r_error = Some ''Boom''\<rparr>"
  by (simp add: executeJavaScript_def)

lemma executeJavaScript_log_x:
  "executeJavaScript \<lparr>calls = [(ConsoleLog, [JPrimitive ''x''])], completion = Returns\<rparr> =
     Resolved \<lparr>r_output = ''x'', r_error = None\<rparr>"
  by (simp add: executeJavaScript_def)

text \<open>
  C9. Every JavaScript execution that raises a fault should resolve with the fault's message
  in the output and in the error field. The user code \<^verbatim>\<open>throw null\<close> raises a fault
  and makes no console call; on it \<^verbatim>\<open>executeCode\<close> does not resolve: the
  \<^verbatim>\<open>catch\<close> block reads \<^verbatim>\<open>error.message\<close> of \<^verbatim>\<open>null\<close>, and the promise is
  rejected with that \<^verbatim>\<open>TypeError\<close>.
\<close>

theorem executeJavaScript_throw_null:
  "executeCode (\<lambda>c. \<lparr>calls = [], completion = Throws NullOrUndefined\<rparr>) (\<lambda>c. Pending)
     ''throw null'' ''javascript'' = Rejected ''TypeError''"
  by (simp add: executeCode_def executeJavaScript_def)

subsection \<open>Inbound messages\<close>

text \<open>
  C10. A message whose type has no case in the handler (\<^verbatim>\<open>typing-start\<close>,
  \<^verbatim>\<open>typing-stop\<close>, \<^verbatim>\<open>selection-update\<close>, any other string) raises no fault and
  leaves the whole state as it was: document, language, roster, cursor map, typing flags,
  refs and timers.
\<close>

theorem handleMessage_unhandled_type:
  assumes "mtype m \<notin> set handled_types"
  shows "handleMessage m s = Inr s"
  using assms by (simp add: handleMessage_def handled_types_def)

theorem handleMessage_unhandled_type_witness:
  "handleMessage \<lparr>mtype = ''typing-start'', mdata = None, musername = None\<rparr>
     (initial_state ''r'' ''alice'') = Inr (initial_state ''r'' ''alice'')
   \<and> handleMessage \<lparr>mtype = ''typing-stop'', mdata = None, musername = None\<rparr>
     (initial_state ''r'' ''alice'') = Inr (initial_state ''r'' ''alice'')
   \<and> handleMessage \<lparr>mtype = ''selection-update'', mdata = None, musername = None\<rparr>
     (initial_state ''r'' ''alice'') = Inr (initial_state ''r'' ''alice'')"
  using handleMessage_unhandled_type
    [of "\<lparr>mtype = ''typing-start'', mdata = None, musername = None\<rparr>" "initial_state ''r'' ''alice''"]
    handleMessage_unhandled_type
    [of "\<lparr>mtype = ''typing-stop'', mdata = None, musername = None\<rparr>" "initial_state ''r'' ''alice''"]
    handleMessage_unhandled_type
    [of "\<lparr>mtype = ''selection-update'', mdata = None, musername = None\<rparr>" "initial_state ''r'' ''alice''"]
  by (simp add: handled_types_def)

text \<open>
  The \<^verbatim>\<open>leave\<close> case filters the roster and the cursor map by display name: once the
  \<^verbatim>\<open>leave\<close> of \<open>u\<close> is handled, no entry of either has the name \<open>u\<close>.
\<close>

lemma leave_removes_name:
  "\<exists>s'. handleMessage \<lparr>mtype = ''leave'', mdata = dl, musername = Some u\<rparr> s = Inr s'
          \<and> participants s' = filter (\<lambda>p. p_username p \<noteq> u) (participants s)
          \<and> remoteCursors s' = filter (\<lambda>c. d_username c \<noteq> Some u) (remoteCursors s)
          \<and> u \<notin> p_username ` set (participants s')
          \<and> Some u \<notin> d_username ` set (remoteCursors s')"
  by (auto simp: handleMessage_def)

text \<open>
  So it is when the re-fetch that the \<^verbatim>\<open>join\<close> started resolves before the \<^verbatim>\<open>leave\<close>
  is handled, whatever it answers.
\<close>

lemma join_resolved_then_leave:
  "\<exists>s'. run_events
            [Message \<lparr>mtype = ''join'', mdata = dj, musername = Some u\<rparr>, JoinResolved res,
             Message \<lparr>mtype = ''leave'', mdata = dl, musername = Some u\<rparr>] s = Inr s'
          \<and> participants s' =
                filter (\<lambda>p. p_username p \<noteq> u)
                  (case res of Some ps \<Rightarrow> ps | None \<Rightarrow> participants s)
          \<and> remoteCursors s' = filter (\<lambda>c. d_username c \<noteq> Some u) (remoteCursors s)
          \<and> u \<notin> p_username ` set (participants s')
          \<and> Some u \<notin> d_username ` set (remoteCursors s')"
  by (cases res) (auto simp: handleMessage_def joinResolved_def)

text \<open>
  C7. After a \<^verbatim>\<open>join\<close> and then a \<^verbatim>\<open>leave\<close> message of a participant, the participant
  should be absent from the roster and from the cursor map. The \<^verbatim>\<open>join\<close> case only
  starts the re-fetch of the roster, and its callback sets the roster to the answer whenever
  the answer comes. In the room of \<open>alice\<close>: \<open>bob\<close> joins, the page asks for the roster,
  \<open>bob\<close> leaves and the \<^verbatim>\<open>leave\<close> is handled, and then the answer resolves, made while
  \<open>bob\<close> was in the room. Both messages are handled, and \<open>bob\<close> is in the roster.
\<close>

theorem join_answer_after_leave:
  "\<exists>s. run_events
          [Message (join_msg ''bob''), Message (leave_msg ''bob''), JoinResolved (Some [alice, bob])]
          room_with_user = Inr s
        \<and> participants s = [alice, bob]
        \<and> ''bob'' \<in> p_username ` set (participants s)"
  by (simp add: join_msg_def leave_msg_def handleMessage_def joinResolved_def room_with_user_def
      roomLoaded_def mountEditor_def initial_state_def bob_def)

lemma cursor_update_step:
  assumes "mtype m = ''cursor-update''" and "mdata m = Some d"
  shows "handleMessage m s =
           Inr (if d_username d = Some (username s) then s
                else s\<lparr>remoteCursors :=
                       filter (\<lambda>c. d_oderId c \<noteq> d_oderId d) (remoteCursors s) @ [d]\<rparr>)"
  using assms by (simp add: handleMessage_def)

lemma entries_of_upsert:
  "entries_of i (filter (\<lambda>c. d_oderId c \<noteq> d_oderId d) cs @ [d]) =
     (if d_oderId d = i then [d] else entries_of i cs)"
proof -
  have "filter (\<lambda>c. d_oderId c = i) (filter (\<lambda>c. d_oderId c \<noteq> d_oderId d) cs) =
          (if d_oderId d = i then [] else filter (\<lambda>c. d_oderId c = i) cs)"
    by (induction cs) auto
  then show ?thesis by (simp add: entries_of_def del: filter_filter)
qed

lemma distinct_upsert:
  assumes "distinct (map d_oderId cs)"
  shows "distinct (map d_oderId (filter (\<lambda>c. d_oderId c \<noteq> d_oderId d) cs @ [d]))"
  using assms by (induction cs) auto

lemma cursor_updates_run:
  assumes "\<forall>m\<in>set ms. mtype m = ''cursor-update'' \<and> mdata m \<noteq> None"
    and "distinct (map d_oderId (remoteCursors s))"
  shows "\<exists>s'. handleMessages ms s = Inr s'
           \<and> username s' = username s
           \<and> distinct (map d_oderId (remoteCursors s'))
           \<and> (\<forall>i. entries_of i (remoteCursors s') =
                  (case latest_cursor (username s) i ms of
                     Some d \<Rightarrow> [d]
                   | None \<Rightarrow> entries_of i (remoteCursors s)))"
  using assms
proof (induction ms arbitrary: s)
  case Nil
  then show ?case by simp
next
  case (Cons m ms)
  from Cons.prems(1) obtain d where m: "mtype m = ''cursor-update''" "mdata m = Some d"
    by auto
  define s1 where "s1 = (if d_username d = Some (username s) then s
                else s\<lparr>remoteCursors :=
                       filter (\<lambda>c. d_oderId c \<noteq> d_oderId d) (remoteCursors s) @ [d]\<rparr>)"
  have step: "handleMessage m s = Inr s1"
    unfolding s1_def by (rule cursor_update_step [OF m])
  have u1: "username s1 = username s" by (simp add: s1_def)
  have d1: "distinct (map d_oderId (remoteCursors s1))"
    using Cons.prems(2) distinct_upsert [of "remoteCursors s" d] by (simp add: s1_def)
  have e1: "entries_of i (remoteCursors s1) =
      (if d_oderId d = i \<and> d_username d \<noteq> Some (username s) then [d]
       else entries_of i (remoteCursors s))" for i
    using entries_of_upsert [of i d "remoteCursors s"]
    by (cases "d_username d = Some (username s)") (simp_all add: s1_def)
  from Cons.prems(1) have "\<forall>m\<in>set ms. mtype m = ''cursor-update'' \<and> mdata m \<noteq> None"
    by simp
  from Cons.IH [OF this d1] obtain s' where
    run: "handleMessages ms s1 = Inr s'" and u': "username s' = username s1"
    and d': "distinct (map d_oderId (remoteCursors s'))"
    and e': "\<And>i. entries_of i (remoteCursors s') =
                  (case latest_cursor (username s1) i ms of
                     Some d \<Rightarrow> [d]
                   | None \<Rightarrow> entries_of i (remoteCursors s1))"
    by blast
  have "handleMessages (m # ms) s = Inr s'"
    using step run by simp
  moreover have "username s' = username s" using u' u1 by simp
  moreover have "entries_of i (remoteCursors s') =
      (case latest_cursor (username s) i (m # ms) of
         Some d \<Rightarrow> [d]
       | None \<Rightarrow> entries_of i (remoteCursors s))" for i
    using e' [of i] e1 [of i] m by (simp add: u1 split: option.splits)
  ultimately show ?case using d' by blast
qed

text \<open>
  C6. After any sequence of \<^verbatim>\<open>cursor-update\<close> messages, starting from a cursor map with
  at most one entry per identity (the empty one, say), the map has at most one entry per
  identity, and the entries of an identity are exactly the whole data of the latest message
  of that identity that did not carry the local user's name (the entries it had before,
  when there is no such message); a message that carries the local user's name changes
  nothing.
\<close>

theorem cursor_map_latest_per_identity:
  assumes "\<forall>m\<in>set ms. mtype m = ''cursor-update'' \<and> mdata m \<noteq> None"
    and "distinct (map d_oderId (remoteCursors s))"
  shows "\<exists>s'. handleMessages ms s = Inr s'
           \<and> distinct (map d_oderId (remoteCursors s'))
           \<and> (\<forall>i. entries_of i (remoteCursors s') =
                  (case latest_cursor (username s) i ms of
                     Some d \<Rightarrow> [d]
                   | None \<Rightarrow> entries_of i (remoteCursors s)))
           \<and> (\<forall>d. d_username d = Some (username s) \<longrightarrow>
                  handleMessage (cursor_update_in d) s = Inr s)"
proof -
  from cursor_updates_run [OF assms] obtain s' where
    "handleMessages ms s = Inr s'" and "distinct (map d_oderId (remoteCursors s'))"
    and "\<forall>i. entries_of i (remoteCursors s') =
                  (case latest_cursor (username s) i ms of
                     Some d \<Rightarrow> [d]
                   | None \<Rightarrow> entries_of i (remoteCursors s))"
    by blast
  moreover have "\<forall>d. d_username d = Some (username s) \<longrightarrow>
                  handleMessage (cursor_update_in d) s = Inr s"
    by (simp add: handleMessage_def cursor_update_in_def)
  ultimately show ?thesis by blast
qed

theorem cursor_map_latest_per_identity_witness:
  "\<exists>s'. handleMessages
          [cursor_update_in (bob_at 10), cursor_update_in (alice_at 7), cursor_update_in (bob_at 50)]
          (initial_state ''r'' ''alice'') = Inr s'
        \<and> remoteCursors s' = [bob_at 50]
        \<and> entries_of (Some ''u2'') (remoteCursors s') = [bob_at 50]
        \<and> entries_of (Some ''u1'') (remoteCursors s') = []"
  using cursor_map_latest_per_identity
    [of "[cursor_update_in (bob_at 10), cursor_update_in (alice_at 7), cursor_update_in (bob_at 50)]"
      "initial_state ''r'' ''alice''"]
  by (simp add: handleMessage_def cursor_update_in_def initial_state_def bob_at_def alice_at_def
      no_data_def entries_of_def)

subsection \<open>Timers: the invariant of the page\<close>

lemma filter_remove1_not: "\<not> P x \<Longrightarrow> filter P (remove1 x xs) = filter P xs"
  by (induction xs) auto

lemma foldl_earlier_min:
  fixes x :: timer
  shows "\<forall>y\<in>set (x # xs). due (foldl (\<lambda>a b. if due b < due a then b else a) x xs) \<le> due y"
proof (induction xs arbitrary: x)
  case Nil
  show ?case by simp
next
  case (Cons z zs)
  let ?x' = "if due z < due x then z else x"
  have IH: "\<forall>y\<in>set (?x' # zs). due (foldl (\<lambda>a b. if due b < due a then b else a) ?x' zs) \<le> due y"
    by (rule Cons.IH)
  then have a: "due (foldl (\<lambda>a b. if due b < due a then b else a) ?x' zs) \<le> due ?x'" by simp
  have "due ?x' \<le> due x" and "due ?x' \<le> due z" by simp_all
  with a have "due (foldl (\<lambda>a b. if due b < due a then b else a) ?x' zs) \<le> due x"
    and "due (foldl (\<lambda>a b. if due b < due a then b else a) ?x' zs) \<le> due z"
    by linarith+
  with IH show ?case by simp
qed

lemma next_due_min:
  fixes tms :: "timer list"
  assumes a: "next_due t tms = Some tm" and b: "tm' \<in> set tms"
  shows "due tm \<le> due tm'"
proof (cases "due tm' \<le> t")
  case True
  obtain x xs where f: "filter (\<lambda>tm. due tm \<le> t) tms = x # xs"
    using a by (cases "filter (\<lambda>tm. due tm \<le> t) tms") (simp_all add: next_due_def)
  with a have tm: "tm = foldl (\<lambda>a b. if due b < due a then b else a) x xs"
    by (simp add: next_due_def)
  from True b have "tm' \<in> set (filter (\<lambda>tm. due tm \<le> t) tms)" by simp
  then have "tm' \<in> set (x # xs)" using f by simp
  then show ?thesis using foldl_earlier_min [of x xs] tm by blast
next
  case False
  then show ?thesis using next_due_mem [OF a] by linarith
qed

lemma timers_fire: "timers (fire tm s) = remove1 tm (timers s)"
  by (simp add: fire_def timers_run_callback)

lemma now_run_callback: "now (run_callback c s) = now s"
  by (cases c) (simp_all add: sendMessage_def updateRoomCode_def Let_def split: option.splits)

lemma now_fire: "now (fire tm s) = max (now s) (due tm)"
  by (simp add: fire_def now_run_callback)

lemma nextTimerId_run_callback: "nextTimerId (run_callback c s) = nextTimerId s"
  by (cases c) (simp_all add: sendMessage_def updateRoomCode_def Let_def split: option.splits)

lemma nextTimerId_fire: "nextTimerId (fire tm s) = nextTimerId s"
  by (simp add: fire_def nextTimerId_run_callback)

lemma static_run_callback: "static (run_callback c s) = static s"
  by (cases c) (simp_all add: static_def sendMessage_def updateRoomCode_def Let_def split: option.splits)

lemma static_fire: "static (fire tm s) = static s"
  by (simp add: fire_def static_run_callback) (simp add: static_def)

lemma kref_run_callback:
  "kref k (run_callback c s) = (if k = kind_of c \<and> (k = KCode \<or> k = KCursor) then None else kref k s)"
  by (cases c; cases k) (simp_all add: sendMessage_def updateRoomCode_def Let_def split: option.splits)

lemma kref_fire:
  "kref k (fire tm s) =
     (if k = kind_of (cb tm) \<and> (k = KCode \<or> k = KCursor) then None else kref k s)"
proof -
  have "kref k' (s\<lparr>now := max (now s) (due tm), timers := remove1 tm (timers s)\<rparr>) = kref k' s" for k'
    by (cases k') simp_all
  then show ?thesis unfolding fire_def kref_run_callback by presburger
qed

lemma pendingCursorRef_run_callback:
  "pendingCursorRef (run_callback c s) = (if c = CursorFlushCb then None else pendingCursorRef s)"
  by (cases c) (simp_all add: sendMessage_def updateRoomCode_def Let_def split: option.splits)

lemma pendingCursorRef_fire:
  "pendingCursorRef (fire tm s) = (if cb tm = CursorFlushCb then None else pendingCursorRef s)"
  by (simp add: fire_def pendingCursorRef_run_callback)

lemma wf_stateI:
  assumes "distinct (map tid (timers s))"
    and "\<And>tm. tm \<in> set (timers s) \<Longrightarrow> tid tm < nextTimerId s"
    and "\<And>tm. tm \<in> set (timers s) \<Longrightarrow> kref (kind_of (cb tm)) s = Some (tid tm)"
    and "\<And>tm k. tm \<in> set (timers s) \<Longrightarrow> kref k s = Some (tid tm) \<Longrightarrow> k = kind_of (cb tm)"
    and "\<And>tm. tm \<in> set (timers s) \<Longrightarrow> now s \<le> due tm"
    and "\<And>tm. tm \<in> set (timers s) \<Longrightarrow> due tm \<le> now s + period (kind_of (cb tm))"
    and "\<And>k i. kref k s = Some i \<Longrightarrow> i < nextTimerId s"
    and "codeThrottleRef s \<noteq> None \<Longrightarrow> ktimers KCode s \<noteq> []"
    and "cursorThrottleRef s \<noteq> None \<Longrightarrow> ktimers KCursor s \<noteq> []"
    and "\<And>m. pendingCursorRef s = Some m \<Longrightarrow> mtype m = ''cursor-update''"
  shows "wf_state s"
  unfolding wf_state_def using assms by blast

lemma wfD_distinct: "wf_state s \<Longrightarrow> distinct (map tid (timers s))"
  by (simp add: wf_state_def)

lemma wfD_fresh: "wf_state s \<Longrightarrow> tm \<in> set (timers s) \<Longrightarrow> tid tm < nextTimerId s"
  unfolding wf_state_def by blast

lemma wfD_ref: "wf_state s \<Longrightarrow> tm \<in> set (timers s) \<Longrightarrow> kref (kind_of (cb tm)) s = Some (tid tm)"
  unfolding wf_state_def by blast

lemma wfD_owner:
  "wf_state s \<Longrightarrow> tm \<in> set (timers s) \<Longrightarrow> kref k s = Some (tid tm) \<Longrightarrow> k = kind_of (cb tm)"
  unfolding wf_state_def by blast

lemma wfD_lb: "wf_state s \<Longrightarrow> tm \<in> set (timers s) \<Longrightarrow> now s \<le> due tm"
  unfolding wf_state_def by blast

lemma wfD_ub:
  "wf_state s \<Longrightarrow> tm \<in> set (timers s) \<Longrightarrow> due tm \<le> now s + period (kind_of (cb tm))"
  unfolding wf_state_def by blast

lemma wfD_kref: "wf_state s \<Longrightarrow> kref k s = Some i \<Longrightarrow> i < nextTimerId s"
  unfolding wf_state_def by blast

lemma wfD_code: "wf_state s \<Longrightarrow> codeThrottleRef s \<noteq> None \<Longrightarrow> ktimers KCode s \<noteq> []"
  unfolding wf_state_def by blast

lemma wfD_cursor: "wf_state s \<Longrightarrow> cursorThrottleRef s \<noteq> None \<Longrightarrow> ktimers KCursor s \<noteq> []"
  unfolding wf_state_def by blast

lemma wfD_pending: "wf_state s \<Longrightarrow> pendingCursorRef s = Some m \<Longrightarrow> mtype m = ''cursor-update''"
  unfolding wf_state_def by blast

lemma wf_same_kind:
  assumes wf: "wf_state s" and a: "tm \<in> set (timers s)" and b: "tm' \<in> set (timers s)"
    and k: "kind_of (cb tm) = kind_of (cb tm')"
  shows "tm = tm'"
proof -
  have "Some (tid tm) = Some (tid tm')"
    using wfD_ref [OF wf a] wfD_ref [OF wf b] k by simp
  then have "tid tm = tid tm'" by simp
  moreover have "inj_on tid (set (timers s))"
    using wfD_distinct [OF wf] by (simp add: distinct_map)
  ultimately show ?thesis using a b by (simp add: inj_on_def)
qed

lemma distinct_map_remove1: "distinct (map f xs) \<Longrightarrow> distinct (map f (remove1 x xs))"
proof (induction xs)
  case Nil
  then show ?case by simp
next
  case (Cons y ys)
  have "set (remove1 x ys) \<subseteq> set ys" by (rule set_remove1_subset)
  with Cons show ?case by auto
qed

lemma wf_fire:
  assumes wf: "wf_state s" and nd: "next_due t (timers s) = Some tm"
  shows "wf_state (fire tm s)"
proof (rule wf_stateI)
  have tm: "tm \<in> set (timers s)" using next_due_mem [OF nd] by simp
  have dt: "distinct (timers s)" using wfD_distinct [OF wf] by (simp add: distinct_map)
  have rest: "tm' \<in> set (timers s) \<and> kind_of (cb tm') \<noteq> kind_of (cb tm)"
    if "tm' \<in> set (timers (fire tm s))" for tm'
  proof -
    from that have "tm' \<in> set (timers s) - {tm}"
      using dt by (simp add: timers_fire)
    then have a: "tm' \<in> set (timers s)" and b: "tm' \<noteq> tm" by simp_all
    from b wf_same_kind [OF wf a tm] have "kind_of (cb tm') \<noteq> kind_of (cb tm)" by blast
    with a show ?thesis by simp
  qed
  show "distinct (map tid (timers (fire tm s)))"
    using wfD_distinct [OF wf] by (simp add: timers_fire distinct_map_remove1)
  show "tid tm' < nextTimerId (fire tm s)" if "tm' \<in> set (timers (fire tm s))" for tm'
    using rest [OF that] wfD_fresh [OF wf] by (simp add: nextTimerId_fire)
  show "kref (kind_of (cb tm')) (fire tm s) = Some (tid tm')"
    if "tm' \<in> set (timers (fire tm s))" for tm'
    using rest [OF that] wfD_ref [OF wf] by (simp add: kref_fire)
  show "k = kind_of (cb tm')"
    if "tm' \<in> set (timers (fire tm s))" and "kref k (fire tm s) = Some (tid tm')" for tm' k
  proof -
    from that(2) have "kref k s = Some (tid tm')"
      by (simp add: kref_fire split: if_splits)
    then show ?thesis using rest [OF that(1)] wfD_owner [OF wf] by blast
  qed
  show "now (fire tm s) \<le> due tm'" if "tm' \<in> set (timers (fire tm s))" for tm'
  proof -
    have a: "tm' \<in> set (timers s)" using rest [OF that] by simp
    have "due tm \<le> due tm'" by (rule next_due_min [OF nd a])
    moreover have "now s \<le> due tm'" by (rule wfD_lb [OF wf a])
    ultimately show ?thesis by (simp add: now_fire)
  qed
  show "due tm' \<le> now (fire tm s) + period (kind_of (cb tm'))"
    if "tm' \<in> set (timers (fire tm s))" for tm'
  proof -
    have a: "tm' \<in> set (timers s)" using rest [OF that] by simp
    have "due tm' \<le> now s + period (kind_of (cb tm'))" by (rule wfD_ub [OF wf a])
    then show ?thesis by (simp add: now_fire)
  qed
  show "i < nextTimerId (fire tm s)" if "kref k (fire tm s) = Some i" for k i
  proof -
    from that have "kref k s = Some i" by (simp add: kref_fire split: if_splits)
    then show ?thesis using wfD_kref [OF wf] by (simp add: nextTimerId_fire)
  qed
  show "ktimers KCode (fire tm s) \<noteq> []" if "codeThrottleRef (fire tm s) \<noteq> None"
  proof -
    from that have "kref KCode (fire tm s) \<noteq> None" by simp
    then have k: "kind_of (cb tm) \<noteq> KCode" and "kref KCode s \<noteq> None"
      by (simp_all add: kref_fire split: if_splits)
    then have "ktimers KCode s \<noteq> []" using wfD_code [OF wf] by simp
    then show ?thesis using k by (simp add: ktimers_def timers_fire filter_remove1_not)
  qed
  show "ktimers KCursor (fire tm s) \<noteq> []" if "cursorThrottleRef (fire tm s) \<noteq> None"
  proof -
    from that have "kref KCursor (fire tm s) \<noteq> None" by simp
    then have k: "kind_of (cb tm) \<noteq> KCursor" and "kref KCursor s \<noteq> None"
      by (simp_all add: kref_fire split: if_splits)
    then have "ktimers KCursor s \<noteq> []" using wfD_cursor [OF wf] by simp
    then show ?thesis using k by (simp add: ktimers_def timers_fire filter_remove1_not)
  qed
  show "mtype m = ''cursor-update''" if "pendingCursorRef (fire tm s) = Some m" for m
  proof -
    from that have "pendingCursorRef s = Some m"
      by (simp add: pendingCursorRef_fire split: if_splits)
    then show ?thesis by (rule wfD_pending [OF wf])
  qed
qed

lemma run_timers_None: "next_due t (timers s) = None \<Longrightarrow> run_timers t s = s"
  by (simp add: run_timers.simps)

lemma run_timers_Some: "next_due t (timers s) = Some tm \<Longrightarrow> run_timers t s = run_timers t (fire tm s)"
  by (simp add: run_timers.simps)

lemma wf_run_timers: "wf_state s \<Longrightarrow> wf_state (run_timers t s)"
proof (induction t s rule: run_timers.induct)
  case (1 t s)
  show ?case
  proof (cases "next_due t (timers s)")
    case None
    then show ?thesis using "1.prems" by (simp add: run_timers_None)
  next
    case (Some tm)
    have "wf_state (fire tm s)" by (rule wf_fire [OF "1.prems" Some])
    then have "wf_state (run_timers t (fire tm s))" by (rule "1.IH" [OF Some])
    then show ?thesis by (simp add: run_timers_Some [OF Some])
  qed
qed

lemma run_timers_done: "tm \<in> set (timers (run_timers t s)) \<Longrightarrow> t < due tm"
proof (induction t s rule: run_timers.induct)
  case (1 t s)
  show ?case
  proof (cases "next_due t (timers s)")
    case None
    then show ?thesis using "1.prems" next_due_None [of t "timers s"]
      by (simp add: run_timers_None)
  next
    case (Some tm')
    from "1.prems" have "tm \<in> set (timers (run_timers t (fire tm' s)))"
      by (simp add: run_timers_Some [OF Some])
    then show ?thesis by (rule "1.IH" [OF Some])
  qed
qed

lemma static_run_timers: "static (run_timers t s) = static s"
proof (induction t s rule: run_timers.induct)
  case (1 t s)
  show ?case
  proof (cases "next_due t (timers s)")
    case None
    then show ?thesis by (simp add: run_timers_None)
  next
    case (Some tm)
    have "static (run_timers t (fire tm s)) = static (fire tm s)" by (rule "1.IH" [OF Some])
    then show ?thesis by (simp add: run_timers_Some [OF Some] static_fire)
  qed
qed

lemma now_run_timers: "now s \<le> now (run_timers t s) \<and> now (run_timers t s) \<le> max (now s) t"
proof (induction t s rule: run_timers.induct)
  case (1 t s)
  show ?case
  proof (cases "next_due t (timers s)")
    case None
    then show ?thesis by (simp add: run_timers_None)
  next
    case (Some tm)
    have "due tm \<le> t" using next_due_mem [OF Some] by simp
    moreover have "now (fire tm s) \<le> now (run_timers t (fire tm s))
       \<and> now (run_timers t (fire tm s)) \<le> max (now (fire tm s)) t"
      by (rule "1.IH" [OF Some])
    ultimately show ?thesis unfolding run_timers_Some [OF Some] now_fire by linarith
  qed
qed

lemma kref_now_update: "kref k (s\<lparr>now := n\<rparr>) = kref k s"
  by (cases k) simp_all

lemma ktimers_now_update: "ktimers k (s\<lparr>now := n\<rparr>) = ktimers k s"
  by (simp add: ktimers_def)

lemma wf_now_update:
  assumes wf: "wf_state s" and le: "now s \<le> n" and lb: "\<And>tm. tm \<in> set (timers s) \<Longrightarrow> n \<le> due tm"
  shows "wf_state (s\<lparr>now := n\<rparr>)"
proof (rule wf_stateI)
  show "distinct (map tid (timers (s\<lparr>now := n\<rparr>)))" using wfD_distinct [OF wf] by simp
  show "tid tm < nextTimerId (s\<lparr>now := n\<rparr>)" if "tm \<in> set (timers (s\<lparr>now := n\<rparr>))" for tm
    using that wfD_fresh [OF wf] by simp
  show "kref (kind_of (cb tm)) (s\<lparr>now := n\<rparr>) = Some (tid tm)"
    if "tm \<in> set (timers (s\<lparr>now := n\<rparr>))" for tm
    using that wfD_ref [OF wf] by (simp add: kref_now_update)
  show "k = kind_of (cb tm)"
    if "tm \<in> set (timers (s\<lparr>now := n\<rparr>))" and "kref k (s\<lparr>now := n\<rparr>) = Some (tid tm)" for tm k
    using that wfD_owner [OF wf] by (simp add: kref_now_update)
  show "now (s\<lparr>now := n\<rparr>) \<le> due tm" if "tm \<in> set (timers (s\<lparr>now := n\<rparr>))" for tm
    using that lb by simp
  show "due tm \<le> now (s\<lparr>now := n\<rparr>) + period (kind_of (cb tm))"
    if "tm \<in> set (timers (s\<lparr>now := n\<rparr>))" for tm
  proof -
    from that have "due tm \<le> now s + period (kind_of (cb tm))" using wfD_ub [OF wf] by simp
    then show ?thesis using le by simp
  qed
  show "i < nextTimerId (s\<lparr>now := n\<rparr>)" if "kref k (s\<lparr>now := n\<rparr>) = Some i" for k i
    using that wfD_kref [OF wf] by (simp add: kref_now_update)
  show "ktimers KCode (s\<lparr>now := n\<rparr>) \<noteq> []" if "codeThrottleRef (s\<lparr>now := n\<rparr>) \<noteq> None"
    using that wfD_code [OF wf] by (simp add: ktimers_now_update)
  show "ktimers KCursor (s\<lparr>now := n\<rparr>) \<noteq> []" if "cursorThrottleRef (s\<lparr>now := n\<rparr>) \<noteq> None"
    using that wfD_cursor [OF wf] by (simp add: ktimers_now_update)
  show "mtype m = ''cursor-update''" if "pendingCursorRef (s\<lparr>now := n\<rparr>) = Some m" for m
    using that wfD_pending [OF wf] by simp
qed

lemma wf_advance:
  assumes wf: "wf_state s"
  shows "wf_state (advance t s)"
proof -
  let ?s' = "run_timers t s"
  have wf': "wf_state ?s'" by (rule wf_run_timers [OF wf])
  have "wf_state (?s'\<lparr>now := max (now ?s') t\<rparr>)"
  proof (rule wf_now_update [OF wf'])
    show "now ?s' \<le> max (now ?s') t" by simp
    show "max (now ?s') t \<le> due tm" if "tm \<in> set (timers ?s')" for tm
      using run_timers_done [OF that] wfD_lb [OF wf' that] by simp
  qed
  then show ?thesis by (simp add: advance_def Let_def)
qed

lemma now_advance: "now s \<le> t \<Longrightarrow> now (advance t s) = t"
  using now_run_timers [of s t] by (simp add: advance_def Let_def)

lemma now_wait: "now (wait d s) = now s + d"
  by (simp add: wait_def now_advance)

lemma wf_wait: "wf_state s \<Longrightarrow> wf_state (wait d s)"
  by (simp add: wait_def wf_advance)

lemma static_advance: "static (advance t s) = static s"
proof -
  have "static ((run_timers t s)\<lparr>now := n\<rparr>) = static (run_timers t s)" for n
    by (simp add: static_def)
  then show ?thesis by (simp add: advance_def Let_def static_run_timers)
qed

lemma static_wait: "static (wait d s) = static s"
  by (simp add: wait_def static_advance)

lemma distinct_singleton:
  assumes d: "distinct xs" and e: "set xs = {x}"
  shows "xs = [x]"
proof -
  obtain y ys where c: "xs = y # ys" using e by (cases xs) auto
  have yx: "y = x" using e c by auto
  have nin: "x \<notin> set ys" using d c yx by auto
  have "ys = []"
  proof (cases ys)
    case Nil
    then show ?thesis .
  next
    case (Cons z zs)
    then have "z \<in> set xs" using c by simp
    then have "z = x" using e by simp
    then show ?thesis using nin Cons by simp
  qed
  then show ?thesis using c yx by simp
qed

lemma ktimers_own:
  assumes wf: "wf_state s" and tm: "tm \<in> set (timers s)"
  shows "ktimers (kind_of (cb tm)) s = [tm]"
proof (rule distinct_singleton)
  have "distinct (timers s)" using wfD_distinct [OF wf] by (simp add: distinct_map)
  then show "distinct (ktimers (kind_of (cb tm)) s)" by (simp add: ktimers_def)
  show "set (ktimers (kind_of (cb tm)) s) = {tm}"
  proof
    show "set (ktimers (kind_of (cb tm)) s) \<subseteq> {tm}"
    proof
      fix x assume "x \<in> set (ktimers (kind_of (cb tm)) s)"
      then have "x \<in> set (timers s)" and "kind_of (cb x) = kind_of (cb tm)"
        by (simp_all add: ktimers_def)
      then have "x = tm" using wf_same_kind [OF wf _ tm] by blast
      then show "x \<in> {tm}" by simp
    qed
    show "{tm} \<subseteq> set (ktimers (kind_of (cb tm)) s)" using tm by (simp add: ktimers_def)
  qed
qed

lemma ktimers_fire_other:
  "kind_of (cb tm) \<noteq> k \<Longrightarrow> ktimers k (fire tm s) = ktimers k s"
  by (simp add: ktimers_def timers_fire filter_remove1_not)

lemma ktimers_fire_same:
  assumes wf: "wf_state s" and tm: "tm \<in> set (timers s)"
  shows "ktimers (kind_of (cb tm)) (fire tm s) = []"
proof -
  have "x \<notin> set (ktimers (kind_of (cb tm)) (fire tm s))" for x
  proof
    assume "x \<in> set (ktimers (kind_of (cb tm)) (fire tm s))"
    then have a: "x \<in> set (remove1 tm (timers s))" and k: "kind_of (cb x) = kind_of (cb tm)"
      by (simp_all add: ktimers_def timers_fire)
    have "distinct (timers s)" using wfD_distinct [OF wf] by (simp add: distinct_map)
    with a have "x \<in> set (timers s)" and "x \<noteq> tm" by simp_all
    then show False using wf_same_kind [OF wf _ tm k] by blast
  qed
  then show ?thesis by (cases "ktimers (kind_of (cb tm)) (fire tm s)") auto
qed

lemma trace_fire:
  "trace (fire tm s) = trace s @ fst (fired (max (now s) (due tm)) (cb tm) (kdata (kind_of (cb tm)) s))"
  by (cases "cb tm")
    (simp_all add: fire_def sendMessage_def updateRoomCode_def Let_def split: option.splits)

lemma kdata_fire_same:
  "kdata (kind_of (cb tm)) (fire tm s) = snd (fired n (cb tm) (kdata (kind_of (cb tm)) s))"
  by (cases "cb tm")
    (simp_all add: fire_def sendMessage_def updateRoomCode_def Let_def split: option.splits)

lemma kdata_fire_other: "kind_of (cb tm) \<noteq> k \<Longrightarrow> kdata k (fire tm s) = kdata k s"
  by (cases "cb tm"; cases k)
    (simp_all add: fire_def sendMessage_def updateRoomCode_def Let_def split: option.splits)

lemma ekind_fired:
  assumes "\<And>m. pendingCursorRef s = Some m \<Longrightarrow> mtype m = ''cursor-update''"
    and "x \<in> set (fst (fired n c (kdata (kind_of c) s)))"
  shows "ekind (snd x) = Some (kind_of c)"
  using assms
  by (cases c; cases "pendingCodeRef s"; cases "pendingCursorRef s")
    (auto simp: typing_stop_msg_def code_update_msg_def)

lemma proj_append: "proj k (xs @ ys) = proj k xs @ proj k ys"
  by (simp add: proj_def)

lemma proj_all: "(\<And>x. x \<in> set xs \<Longrightarrow> ekind (snd x) = Some k) \<Longrightarrow> proj k xs = xs"
  by (simp add: proj_def)

lemma proj_none: "(\<And>x. x \<in> set xs \<Longrightarrow> ekind (snd x) \<noteq> Some k) \<Longrightarrow> proj k xs = []"
  by (simp add: proj_def)

lemma kview_fire_other:
  assumes wf: "wf_state s" and k: "kind_of (cb tm) \<noteq> k"
  shows "kview k (fire tm s) = kview k s"
proof -
  let ?e = "fst (fired (max (now s) (due tm)) (cb tm) (kdata (kind_of (cb tm)) s))"
  have "ekind (snd x) \<noteq> Some k" if "x \<in> set ?e" for x
    using ekind_fired [OF wfD_pending [OF wf] that] k by simp
  then have "proj k ?e = []" by (rule proj_none)
  then have "proj k (trace (fire tm s)) = proj k (trace s)"
    by (simp add: trace_fire proj_append)
  moreover have "pend k (fire tm s) = pend k s"
    by (simp add: pend_def ktimers_fire_other [OF k])
  moreover have "kref k (fire tm s) = kref k s" using k by (simp add: kref_fire)
  moreover have "kdata k (fire tm s) = kdata k s" by (rule kdata_fire_other [OF k])
  ultimately show ?thesis by (simp add: kview_def)
qed

lemma kview_fire_same:
  assumes wf: "wf_state s" and tm: "tm \<in> set (timers s)" and k: "kind_of (cb tm) = k"
  shows "kview k (fire tm s) =
           (proj k (trace s) @ fst (fired (due tm) (cb tm) (kdata k s)), [],
            (kref k s = None \<or> k = KCode \<or> k = KCursor),
            snd (fired (due tm) (cb tm) (kdata k s)))"
proof -
  have n: "max (now s) (due tm) = due tm" using wfD_lb [OF wf tm] by simp
  let ?e = "fst (fired (due tm) (cb tm) (kdata k s))"
  have "ekind (snd x) = Some k" if "x \<in> set ?e" for x
    using ekind_fired [OF wfD_pending [OF wf], where x = x and n = "due tm" and c = "cb tm"] that k
    by simp
  then have "proj k ?e = ?e" by (rule proj_all)
  then have "proj k (trace (fire tm s)) = proj k (trace s) @ ?e"
    using k n by (simp add: trace_fire proj_append)
  moreover have "pend k (fire tm s) = []"
    using ktimers_fire_same [OF wf tm] k by (simp add: pend_def)
  moreover have "(kref k (fire tm s) = None) = (kref k s = None \<or> k = KCode \<or> k = KCursor)"
    using k by (auto simp: kref_fire)
  moreover have "kdata k (fire tm s) = snd (fired (due tm) (cb tm) (kdata k s))"
    using kdata_fire_same [of tm s "due tm"] k by simp
  ultimately show ?thesis by (simp add: kview_def)
qed

lemma kview_run_timers_idle:
  assumes "wf_state s" and "\<And>p. p \<in> set (pend k s) \<Longrightarrow> t < fst p"
  shows "kview k (run_timers t s) = kview k s"
  using assms
proof (induction t s rule: run_timers.induct)
  case (1 t s)
  show ?case
  proof (cases "next_due t (timers s)")
    case None
    then show ?thesis by (simp add: run_timers_None)
  next
    case (Some tm)
    have tm: "tm \<in> set (timers s)" and due: "due tm \<le> t"
      using next_due_mem [OF Some] by simp_all
    have k: "kind_of (cb tm) \<noteq> k"
    proof
      assume "kind_of (cb tm) = k"
      with tm have "(due tm, cb tm) \<in> set (pend k s)"
        by (auto simp: pend_def ktimers_def)
      from "1.prems"(2) [OF this] due show False by simp
    qed
    have wf': "wf_state (fire tm s)" by (rule wf_fire [OF "1.prems"(1) Some])
    have v: "kview k (fire tm s) = kview k s" by (rule kview_fire_other [OF "1.prems"(1) k])
    then have "pend k (fire tm s) = pend k s" by (simp add: kview_def)
    then have "kview k (run_timers t (fire tm s)) = kview k (fire tm s)"
      using "1.IH" [OF Some wf'] "1.prems"(2) by simp
    then show ?thesis using v by (simp add: run_timers_Some [OF Some])
  qed
qed

lemma kview_run_timers_fires:
  assumes "wf_state s" and "pend k s = [(d, c)]" and "d \<le> t"
  shows "kview k (run_timers t s) =
           (proj k (trace s) @ fst (fired d c (kdata k s)), [],
            (kref k s = None \<or> k = KCode \<or> k = KCursor),
            snd (fired d c (kdata k s)))"
  using assms
proof (induction t s rule: run_timers.induct)
  case (1 t s)
  note wf = "1.prems"(1) and p = "1.prems"(2) and le = "1.prems"(3)
  from p obtain tm0 where tm0: "ktimers k s = [tm0]" "due tm0 = d" "cb tm0 = c"
    by (auto simp: pend_def)
  then have "tm0 \<in> set (ktimers k s)" by simp
  then have in0: "tm0 \<in> set (timers s)" and k0: "kind_of (cb tm0) = k"
    by (simp_all add: ktimers_def)
  have "next_due t (timers s) \<noteq> None"
    using next_due_None [of t "timers s"] in0 tm0(2) le by auto
  then obtain tm where Some: "next_due t (timers s) = Some tm" by auto
  have tm: "tm \<in> set (timers s)" using next_due_mem [OF Some] by simp
  have wf': "wf_state (fire tm s)" by (rule wf_fire [OF wf Some])
  show ?case
  proof (cases "kind_of (cb tm) = k")
    case True
    have "tm = tm0" using ktimers_own [OF wf tm] True tm0(1) by simp
    then have v: "kview k (fire tm s) =
           (proj k (trace s) @ fst (fired d c (kdata k s)), [],
            (kref k s = None \<or> k = KCode \<or> k = KCursor),
            snd (fired d c (kdata k s)))"
      using kview_fire_same [OF wf tm True] tm0 by simp
    then have "pend k (fire tm s) = []" by (simp add: kview_def)
    then have "kview k (run_timers t (fire tm s)) = kview k (fire tm s)"
      using kview_run_timers_idle [OF wf', of k t] by simp
    then show ?thesis using v by (simp add: run_timers_Some [OF Some])
  next
    case False
    have v: "kview k (fire tm s) = kview k s" by (rule kview_fire_other [OF wf False])
    then have p': "pend k (fire tm s) = [(d, c)]" using p by (simp add: kview_def)
    have "kview k (run_timers t (fire tm s)) =
           (proj k (trace (fire tm s)) @ fst (fired d c (kdata k (fire tm s))), [],
            (kref k (fire tm s) = None \<or> k = KCode \<or> k = KCursor),
            snd (fired d c (kdata k (fire tm s))))"
      by (rule "1.IH" [OF Some wf' p' le])
    moreover from v have "proj k (trace (fire tm s)) = proj k (trace s)"
      and "kdata k (fire tm s) = kdata k s"
      and "(kref k (fire tm s) = None) = (kref k s = None)"
      by (simp_all add: kview_def)
    ultimately show ?thesis by (simp add: run_timers_Some [OF Some])
  qed
qed

lemma kview_now_update: "kview k (s\<lparr>now := n\<rparr>) = kview k s"
  by (cases k) (simp_all add: kview_def pend_def ktimers_def)

lemma kview_advance_idle:
  assumes "wf_state s" and "\<And>p. p \<in> set (pend k s) \<Longrightarrow> t < fst p"
  shows "kview k (advance t s) = kview k s"
  using kview_run_timers_idle [OF assms] by (simp add: advance_def Let_def kview_now_update)

lemma kview_advance_fires:
  assumes "wf_state s" and "pend k s = [(d, c)]" and "d \<le> t"
  shows "kview k (advance t s) =
           (proj k (trace s) @ fst (fired d c (kdata k s)), [],
            (kref k s = None \<or> k = KCode \<or> k = KCursor),
            snd (fired d c (kdata k s)))"
  using kview_run_timers_fires [OF assms] by (simp add: advance_def Let_def kview_now_update)

lemma kref_set_kref: "kref k' (set_kref k v s) = (if k' = k then v else kref k' s)"
  by (cases k; cases k') simp_all

lemma timers_set_kref: "timers (set_kref k v s) = timers s"
  by (cases k) simp_all

lemma now_set_kref: "now (set_kref k v s) = now s"
  by (cases k) simp_all

lemma nextTimerId_set_kref: "nextTimerId (set_kref k v s) = nextTimerId s"
  by (cases k) simp_all

lemma trace_set_kref: "trace (set_kref k v s) = trace s"
  by (cases k) simp_all

lemma pendingCursorRef_set_kref: "pendingCursorRef (set_kref k v s) = pendingCursorRef s"
  by (cases k) simp_all

lemma kdata_set_kref: "kdata k' (set_kref k v s) = kdata k' s"
  by (cases k; cases k') simp_all

lemma static_set_kref: "static (set_kref k v s) = static s"
  by (cases k) (simp_all add: static_def)

lemma schedule_fields:
  "timers (schedule k c s) = timers s @ [new_timer k c s]"
  "now (schedule k c s) = now s"
  "nextTimerId (schedule k c s) = Suc (nextTimerId s)"
  "trace (schedule k c s) = trace s"
  "pendingCursorRef (schedule k c s) = pendingCursorRef s"
  "static (schedule k c s) = static s"
  by (simp_all add: schedule_def setTimeout_def new_timer_def timers_set_kref now_set_kref
      nextTimerId_set_kref trace_set_kref pendingCursorRef_set_kref static_set_kref)
    (simp add: static_def)

lemma kref_schedule: "kref k' (schedule k c s) = (if k' = k then Some (nextTimerId s) else kref k' s)"
proof -
  have "kref k' (s\<lparr>timers := T, nextTimerId := n\<rparr>) = kref k' s" for T n
    by (cases k') simp_all
  then show ?thesis by (simp add: schedule_def setTimeout_def kref_set_kref)
qed

lemma kdata_schedule: "kdata k' (schedule k c s) = kdata k' s"
proof -
  have "kdata k' (s\<lparr>timers := T, nextTimerId := n\<rparr>) = kdata k' s" for T n
    by (cases k') simp_all
  then show ?thesis by (simp add: schedule_def setTimeout_def kdata_set_kref)
qed

lemma cancel_fields:
  "timers (cancel k s) = (case kref k s of Some i \<Rightarrow> filter (\<lambda>tm. tid tm \<noteq> i) (timers s) | None \<Rightarrow> timers s)"
  "now (cancel k s) = now s"
  "nextTimerId (cancel k s) = nextTimerId s"
  "trace (cancel k s) = trace s"
  "pendingCursorRef (cancel k s) = pendingCursorRef s"
  "static (cancel k s) = static s"
  by (simp_all add: cancel_def clearTimeout_def static_def split: option.splits)

lemma kref_cancel: "kref k' (cancel k s) = kref k' s"
  by (cases k') (simp_all add: cancel_def clearTimeout_def split: option.splits)

lemma kdata_cancel: "kdata k' (cancel k s) = kdata k' s"
  by (cases k') (simp_all add: cancel_def clearTimeout_def split: option.splits)

lemma timers_cancel_subset: "set (timers (cancel k s)) \<subseteq> set (timers s)"
  by (auto simp: cancel_fields split: option.splits)

lemma ktimers_cancel_same:
  assumes wf: "wf_state s"
  shows "ktimers k (cancel k s) = []"
proof -
  have "x \<notin> set (ktimers k (cancel k s))" for x
  proof
    assume a: "x \<in> set (ktimers k (cancel k s))"
    then have x: "x \<in> set (timers (cancel k s))" and kx: "kind_of (cb x) = k"
      by (simp_all add: ktimers_def)
    from x have xs: "x \<in> set (timers s)" using timers_cancel_subset by blast
    have r: "kref k s = Some (tid x)" using wfD_ref [OF wf xs] kx by simp
    with x show False by (simp add: cancel_fields)
  qed
  then show ?thesis by (cases "ktimers k (cancel k s)") auto
qed

lemma ktimers_cancel_other:
  assumes wf: "wf_state s" and k: "k' \<noteq> k"
  shows "ktimers k' (cancel k s) = ktimers k' s"
proof (cases "kref k s")
  case None
  then show ?thesis by (simp add: ktimers_def cancel_fields)
next
  case (Some i)
  have "filter (\<lambda>tm. kind_of (cb tm) = k') (filter (\<lambda>tm. tid tm \<noteq> i) (timers s)) =
        filter (\<lambda>tm. kind_of (cb tm) = k') (timers s)"
  proof (simp, rule filter_cong [OF refl])
    fix x assume xs: "x \<in> set (timers s)"
    show "(tid x \<noteq> i \<and> kind_of (cb x) = k') = (kind_of (cb x) = k')"
    proof (cases "tid x = i")
      case True
      then have "k = kind_of (cb x)" using wfD_owner [OF wf xs, of k] Some by simp
      then show ?thesis using k by auto
    next
      case False
      then show ?thesis by simp
    qed
  qed
  then show ?thesis using Some by (simp add: ktimers_def cancel_fields)
qed

lemma wf_cong:
  assumes wf: "wf_state s"
    and t: "timers s' = timers s" and n: "nextTimerId s' = nextTimerId s" and c: "now s' = now s"
    and r: "\<And>k. kref k s' = kref k s"
    and p: "\<And>m. pendingCursorRef s' = Some m \<Longrightarrow> mtype m = ''cursor-update''"
  shows "wf_state s'"
proof (rule wf_stateI)
  show "distinct (map tid (timers s'))" using wfD_distinct [OF wf] t by simp
  show "tid tm < nextTimerId s'" if "tm \<in> set (timers s')" for tm
    using that wfD_fresh [OF wf] t n by simp
  show "kref (kind_of (cb tm)) s' = Some (tid tm)" if "tm \<in> set (timers s')" for tm
    using that wfD_ref [OF wf] t r by simp
  show "k = kind_of (cb tm)" if "tm \<in> set (timers s')" and "kref k s' = Some (tid tm)" for tm k
    using that wfD_owner [OF wf] t r by simp
  show "now s' \<le> due tm" if "tm \<in> set (timers s')" for tm
    using that wfD_lb [OF wf] t c by simp
  show "due tm \<le> now s' + period (kind_of (cb tm))" if "tm \<in> set (timers s')" for tm
    using that wfD_ub [OF wf] t c by simp
  show "i < nextTimerId s'" if "kref k s' = Some i" for k i
    using that wfD_kref [OF wf] r n by simp
  show "ktimers KCode s' \<noteq> []" if "codeThrottleRef s' \<noteq> None"
    using that wfD_code [OF wf] r [of KCode] t by (simp add: ktimers_def)
  show "ktimers KCursor s' \<noteq> []" if "cursorThrottleRef s' \<noteq> None"
    using that wfD_cursor [OF wf] r [of KCursor] t by (simp add: ktimers_def)
  show "mtype m = ''cursor-update''" if "pendingCursorRef s' = Some m" for m
    using that by (rule p)
qed

lemma kref_sendMessage: "kref k (sendMessage m s) = kref k s"
  by (cases k) (simp_all add: sendMessage_def)

lemma wf_sendMessage:
  assumes wf: "wf_state s"
  shows "wf_state (sendMessage m s)"
proof (rule wf_cong [OF wf])
  show "mtype x = ''cursor-update''" if "pendingCursorRef (sendMessage m s) = Some x" for x
    using that wfD_pending [OF wf, of x] by (simp add: sendMessage_def)
qed (simp_all add: kref_sendMessage, simp_all add: sendMessage_def)

lemma wf_cancel:
  assumes wf: "wf_state s" and k: "k = KTyping \<or> k = KPersist"
  shows "wf_state (cancel k s)"
proof (rule wf_stateI)
  note sub = timers_cancel_subset [of k s]
  have "distinct (map tid (filter P (timers s)))" for P
    using wfD_distinct [OF wf] by (simp add: distinct_map_filter)
  then show "distinct (map tid (timers (cancel k s)))"
    using wfD_distinct [OF wf] by (simp add: cancel_fields split: option.splits)
  show "tid tm < nextTimerId (cancel k s)" if "tm \<in> set (timers (cancel k s))" for tm
    using that sub wfD_fresh [OF wf, of tm] by (auto simp: cancel_fields(3))
  show "kref (kind_of (cb tm)) (cancel k s) = Some (tid tm)" if "tm \<in> set (timers (cancel k s))" for tm
    using that sub wfD_ref [OF wf, of tm] by (auto simp: kref_cancel)
  show "k' = kind_of (cb tm)"
    if "tm \<in> set (timers (cancel k s))" and "kref k' (cancel k s) = Some (tid tm)" for tm k'
    using that sub wfD_owner [OF wf, of tm k'] by (auto simp: kref_cancel)
  show "now (cancel k s) \<le> due tm" if "tm \<in> set (timers (cancel k s))" for tm
    using that sub wfD_lb [OF wf, of tm] by (auto simp: cancel_fields(2))
  show "due tm \<le> now (cancel k s) + period (kind_of (cb tm))"
    if "tm \<in> set (timers (cancel k s))" for tm
    using that sub wfD_ub [OF wf, of tm] by (auto simp: cancel_fields(2))
  show "i < nextTimerId (cancel k s)" if "kref k' (cancel k s) = Some i" for k' i
    using that wfD_kref [OF wf, of k' i] by (simp add: kref_cancel cancel_fields(3))
  show "ktimers KCode (cancel k s) \<noteq> []" if "codeThrottleRef (cancel k s) \<noteq> None"
  proof -
    from that have "kref KCode s \<noteq> None" using kref_cancel [of KCode k s] by simp
    then have "ktimers KCode s \<noteq> []" using wfD_code [OF wf] by simp
    moreover have "KCode \<noteq> k" using k by auto
    ultimately show ?thesis by (simp add: ktimers_cancel_other [OF wf])
  qed
  show "ktimers KCursor (cancel k s) \<noteq> []" if "cursorThrottleRef (cancel k s) \<noteq> None"
  proof -
    from that have "kref KCursor s \<noteq> None" using kref_cancel [of KCursor k s] by simp
    then have "ktimers KCursor s \<noteq> []" using wfD_cursor [OF wf] by simp
    moreover have "KCursor \<noteq> k" using k by auto
    ultimately show ?thesis by (simp add: ktimers_cancel_other [OF wf])
  qed
  show "mtype m = ''cursor-update''" if "pendingCursorRef (cancel k s) = Some m" for m
    using that wfD_pending [OF wf] by (simp add: cancel_fields(5))
qed

lemma wf_schedule:
  assumes wf: "wf_state s" and c: "kind_of c = k" and e: "ktimers k s = []"
  shows "wf_state (schedule k c s)"
proof (rule wf_stateI)
  let ?s = "schedule k c s"
  let ?n = "new_timer k c s"
  have mem: "tm \<in> set (timers ?s) \<longleftrightarrow> tm \<in> set (timers s) \<or> tm = ?n" for tm
    by (auto simp: schedule_fields(1))
  have old: "kind_of (cb tm) \<noteq> k" if "tm \<in> set (timers s)" for tm
  proof
    assume "kind_of (cb tm) = k"
    with that have "tm \<in> set (ktimers k s)" by (simp add: ktimers_def)
    with e show False by simp
  qed
  have n: "tid ?n = nextTimerId s" "due ?n = now s + period k" "cb ?n = c"
    by (simp_all add: new_timer_def)
  have "nextTimerId s \<notin> tid ` set (timers s)"
  proof
    assume "nextTimerId s \<in> tid ` set (timers s)"
    then obtain x where x: "x \<in> set (timers s)" and "nextTimerId s = tid x" by auto
    then show False using wfD_fresh [OF wf x] by simp
  qed
  then show "distinct (map tid (timers ?s))"
    using wfD_distinct [OF wf] by (simp add: schedule_fields(1) n)
  show "tid tm < nextTimerId ?s" if "tm \<in> set (timers ?s)" for tm
    using that wfD_fresh [OF wf, of tm] by (auto simp: mem schedule_fields(3) new_timer_def)
  show "kref (kind_of (cb tm)) ?s = Some (tid tm)" if "tm \<in> set (timers ?s)" for tm
  proof (cases "tm = ?n")
    case True
    then show ?thesis using c n by (simp add: kref_schedule)
  next
    case False
    with that have tm: "tm \<in> set (timers s)" by (simp add: mem)
    then show ?thesis using old [OF tm] wfD_ref [OF wf tm] by (simp add: kref_schedule)
  qed
  show "k' = kind_of (cb tm)" if "tm \<in> set (timers ?s)" and "kref k' ?s = Some (tid tm)" for tm k'
  proof (cases "tm = ?n")
    case True
    show ?thesis
    proof (cases "k' = k")
      case True
      then show ?thesis using \<open>tm = ?n\<close> c n by simp
    next
      case False
      with that(2) True have "kref k' s = Some (nextTimerId s)" by (simp add: kref_schedule n)
      then show ?thesis using wfD_kref [OF wf, of k' "nextTimerId s"] by simp
    qed
  next
    case False
    with that(1) have tm: "tm \<in> set (timers s)" by (simp add: mem)
    show ?thesis
    proof (cases "k' = k")
      case True
      with that(2) have "tid tm = nextTimerId s" by (simp add: kref_schedule)
      then show ?thesis using wfD_fresh [OF wf tm] by simp
    next
      case False
      with that(2) have "kref k' s = Some (tid tm)" by (simp add: kref_schedule)
      then show ?thesis by (rule wfD_owner [OF wf tm])
    qed
  qed
  show "now ?s \<le> due tm" if "tm \<in> set (timers ?s)" for tm
    using that wfD_lb [OF wf, of tm] by (auto simp: mem schedule_fields(2) new_timer_def)
  show "due tm \<le> now ?s + period (kind_of (cb tm))" if "tm \<in> set (timers ?s)" for tm
    using that wfD_ub [OF wf, of tm] c by (auto simp: mem schedule_fields(2) new_timer_def)
  show "i < nextTimerId ?s" if "kref k' ?s = Some i" for k' i
    using that wfD_kref [OF wf, of k' i]
    by (cases "k' = k") (simp_all add: kref_schedule schedule_fields(3))
  show "ktimers KCode ?s \<noteq> []" if "codeThrottleRef ?s \<noteq> None"
  proof (cases "k = KCode")
    case True
    then show ?thesis using c by (simp add: ktimers_def schedule_fields(1) new_timer_def)
  next
    case False
    with that have "kref KCode s \<noteq> None" using kref_schedule [of KCode k c s] by simp
    then have "ktimers KCode s \<noteq> []" using wfD_code [OF wf] by simp
    then show ?thesis by (simp add: ktimers_def schedule_fields(1))
  qed
  show "ktimers KCursor ?s \<noteq> []" if "cursorThrottleRef ?s \<noteq> None"
  proof (cases "k = KCursor")
    case True
    then show ?thesis using c by (simp add: ktimers_def schedule_fields(1) new_timer_def)
  next
    case False
    with that have "kref KCursor s \<noteq> None" using kref_schedule [of KCursor k c s] by simp
    then have "ktimers KCursor s \<noteq> []" using wfD_cursor [OF wf] by simp
    then show ?thesis by (simp add: ktimers_def schedule_fields(1))
  qed
  show "mtype m = ''cursor-update''" if "pendingCursorRef ?s = Some m" for m
    using that wfD_pending [OF wf] by (simp add: schedule_fields(5))
qed

lemma kview_cong:
  assumes "trace s' = trace s" and "timers s' = timers s" and "kref k s' = kref k s"
    and "kdata k s' = kdata k s"
  shows "kview k s' = kview k s"
  using assms by (simp add: kview_def pend_def ktimers_def)

lemma kview_schedule_other:
  assumes "k' \<noteq> k" and "kind_of c = k"
  shows "kview k' (schedule k c s) = kview k' s"
  using assms
  by (simp add: kview_def pend_def ktimers_def schedule_fields kref_schedule kdata_schedule
      new_timer_def)

lemma kview_schedule_same:
  assumes "kind_of c = k"
  shows "kview k (schedule k c s) =
           (proj k (trace s), pend k s @ [(now s + period k, c)], False, kdata k s)"
  using assms
  by (simp add: kview_def pend_def ktimers_def schedule_fields kref_schedule kdata_schedule
      new_timer_def)

lemma kview_cancel_other:
  assumes "wf_state s" and "k' \<noteq> k"
  shows "kview k' (cancel k s) = kview k' s"
  using ktimers_cancel_other [OF assms]
  by (simp add: kview_def pend_def cancel_fields kref_cancel kdata_cancel)

lemma kview_cancel_same:
  assumes "wf_state s"
  shows "kview k (cancel k s) = (proj k (trace s), [], kref k s = None, kdata k s)"
  using ktimers_cancel_same [OF assms, of k]
  by (simp add: kview_def pend_def cancel_fields kref_cancel kdata_cancel)

lemma kdata_sendMessage: "kdata k (sendMessage m s) = kdata k s"
  by (cases k) (simp_all add: sendMessage_def)

lemma kview_sendMessage:
  "kview k (sendMessage m s) =
     (proj k (trace s) @ (if ekind (SendMessage m) = Some k then [(now s, SendMessage m)] else []),
      pend k s, kref k s = None, kdata k s)"
proof -
  have "trace (sendMessage m s) = trace s @ [(now s, SendMessage m)]"
    and "timers (sendMessage m s) = timers s"
    by (simp_all add: sendMessage_def)
  then show ?thesis
    by (simp add: kview_def pend_def ktimers_def kref_sendMessage kdata_sendMessage proj_def)
qed

lemma handleCodeChange_suppressed:
  assumes "isRemoteUpdateRef s"
  shows "handleCodeChange cl c s = s\<lparr>code := Some c, isRemoteUpdateRef := False\<rparr>"
  using assms by (simp add: handleCodeChange_def)

lemma handleCodeChange_blocks:
  assumes "\<not> isRemoteUpdateRef s"
  shows "handleCodeChange cl c s =
           (persist_block cl c (code_block c (typing_block cl (s\<lparr>code := Some c\<rparr>))))
             \<lparr>isRemoteUpdateRef := False\<rparr>"
  using assms
  by (cases "cl_isTyping cl"; cases "typingTimeoutRef s"; cases "codeThrottleRef s";
      cases "persistTimerRef s")
    (simp_all add: handleCodeChange_def persist_block_def code_block_def typing_block_def
      typing_start_def schedule_def cancel_def setTimeout_def clearTimeout_def sendMessage_def
      Let_def)

lemma ktimers_idle:
  assumes wf: "wf_state s" and r: "kref k s = None"
  shows "ktimers k s = []"
proof -
  have "x \<notin> set (ktimers k s)" for x
  proof
    assume "x \<in> set (ktimers k s)"
    then have "x \<in> set (timers s)" and "kind_of (cb x) = k" by (simp_all add: ktimers_def)
    then show False using wfD_ref [OF wf, of x] r by simp
  qed
  then show ?thesis by (cases "ktimers k s") auto
qed

lemma static_sendMessage: "static (sendMessage m s) = static s"
  by (simp add: static_def sendMessage_def)

lemma now_sendMessage: "now (sendMessage m s) = now s"
  by (simp add: sendMessage_def)

lemma ktimers_sendMessage: "ktimers k (sendMessage m s) = ktimers k s"
  by (simp add: ktimers_def sendMessage_def)

subsection \<open>The typing block\<close>

lemma kref_isTyping_update: "kref k (s\<lparr>isTyping := b\<rparr>) = kref k s"
  by (cases k) simp_all

lemma wf_isTyping_update:
  assumes wf: "wf_state s"
  shows "wf_state (s\<lparr>isTyping := b\<rparr>)"
proof (rule wf_cong [OF wf])
  show "mtype m = ''cursor-update''" if "pendingCursorRef (s\<lparr>isTyping := b\<rparr>) = Some m" for m
    using that wfD_pending [OF wf, of m] by simp
qed (simp_all add: kref_isTyping_update)

lemma wf_typing_start: "wf_state s \<Longrightarrow> wf_state (typing_start cl s)"
  by (simp add: typing_start_def wf_sendMessage wf_isTyping_update)

lemma typing_start_fields:
  "now (typing_start cl s) = now s"
  "static (typing_start cl s) = static s"
  "username (typing_start cl s) = username s"
  by (simp_all add: typing_start_def sendMessage_def static_def)

lemma trace_typing_start:
  "trace (typing_start cl s) =
     trace s @ (if cl_isTyping cl then []
                else [(now s, SendMessage (typing_start_msg (cl_username cl)))])"
  by (simp add: typing_start_def sendMessage_def)

lemma ekind_typing_start: "ekind (SendMessage (typing_start_msg u)) = None"
  by (simp add: typing_start_msg_def)

lemma kview_typing_start_other:
  assumes "k \<noteq> KTyping"
  shows "kview k (typing_start cl s) = kview k s"
proof (cases "cl_isTyping cl")
  case True
  then show ?thesis by (simp add: typing_start_def)
next
  case False
  have "kview k (s\<lparr>isTyping := True\<rparr>) = kview k s"
    using assms by (intro kview_cong) (cases k; simp)+
  then show ?thesis
    using False
    by (simp add: typing_start_def kview_sendMessage typing_start_msg_def) (simp add: kview_def)
qed

lemma kview_typing_start_same:
  "kview KTyping (typing_start cl s) =
     (proj KTyping (trace s), pend KTyping s, typingTimeoutRef s = None,
      DTyping (if cl_isTyping cl then isTyping s else True))"
proof (cases "cl_isTyping cl")
  case True
  then show ?thesis by (simp add: typing_start_def kview_def)
next
  case False
  then show ?thesis
    by (simp add: typing_start_def kview_sendMessage typing_start_msg_def)
      (simp add: pend_def ktimers_def)
qed

lemma wf_typing_block:
  assumes wf: "wf_state s"
  shows "wf_state (typing_block cl s)"
  unfolding typing_block_def
proof (rule wf_schedule)
  have wf1: "wf_state (typing_start cl s)" by (rule wf_typing_start [OF wf])
  show "wf_state (cancel KTyping (typing_start cl s))" by (rule wf_cancel [OF wf1]) simp
  show "kind_of (TypingStopCb (cl_username cl)) = KTyping" by simp
  show "ktimers KTyping (cancel KTyping (typing_start cl s)) = []"
    by (rule ktimers_cancel_same [OF wf1])
qed

lemma typing_block_fields:
  "now (typing_block cl s) = now s"
  "static (typing_block cl s) = static s"
  by (simp_all add: typing_block_def schedule_fields cancel_fields typing_start_fields)

lemma kview_typing_block_other:
  assumes wf: "wf_state s" and k: "k \<noteq> KTyping"
  shows "kview k (typing_block cl s) = kview k s"
proof -
  have wf1: "wf_state (typing_start cl s)" by (rule wf_typing_start [OF wf])
  have "kview k (typing_block cl s) = kview k (cancel KTyping (typing_start cl s))"
    unfolding typing_block_def by (rule kview_schedule_other [OF k]) simp
  also have "\<dots> = kview k (typing_start cl s)" by (rule kview_cancel_other [OF wf1 k])
  also have "\<dots> = kview k s" by (rule kview_typing_start_other [OF k])
  finally show ?thesis .
qed

lemma kview_typing_block_same:
  assumes wf: "wf_state s"
  shows "kview KTyping (typing_block cl s) =
     (proj KTyping (trace s), [(now s + 3000, TypingStopCb (cl_username cl))], False,
      DTyping (if cl_isTyping cl then isTyping s else True))"
proof -
  have wf1: "wf_state (typing_start cl s)" by (rule wf_typing_start [OF wf])
  have c: "kview KTyping (cancel KTyping (typing_start cl s)) =
      (proj KTyping (trace (typing_start cl s)), [], kref KTyping (typing_start cl s) = None,
       kdata KTyping (typing_start cl s))"
    by (rule kview_cancel_same [OF wf1])
  have "kview KTyping (typing_block cl s) =
      (proj KTyping (trace (cancel KTyping (typing_start cl s))),
       pend KTyping (cancel KTyping (typing_start cl s)) @
         [(now (cancel KTyping (typing_start cl s)) + period KTyping,
           TypingStopCb (cl_username cl))],
       False, kdata KTyping (cancel KTyping (typing_start cl s)))"
    unfolding typing_block_def by (rule kview_schedule_same) simp
  then show ?thesis
    using c kview_typing_start_same [of cl s]
    by (simp add: kview_def cancel_fields typing_start_fields)
qed

subsection \<open>The broadcast block\<close>

lemma kref_pendingCodeRef_update: "kref k (s\<lparr>pendingCodeRef := v\<rparr>) = kref k s"
  by (cases k) simp_all

lemma wf_pendingCodeRef_update:
  assumes wf: "wf_state s"
  shows "wf_state (s\<lparr>pendingCodeRef := v\<rparr>)"
proof (rule wf_cong [OF wf])
  show "mtype m = ''cursor-update''" if "pendingCursorRef (s\<lparr>pendingCodeRef := v\<rparr>) = Some m" for m
    using that wfD_pending [OF wf, of m] by simp
qed (simp_all add: kref_pendingCodeRef_update)

lemma kview_pendingCodeRef_update_other:
  assumes "k \<noteq> KCode"
  shows "kview k (s\<lparr>pendingCodeRef := v\<rparr>) = kview k s"
  using assms by (intro kview_cong) (cases k; simp)+

lemma kview_pendingCodeRef_update_same:
  "kview KCode (s\<lparr>pendingCodeRef := v\<rparr>) =
     (proj KCode (trace s), pend KCode s, codeThrottleRef s = None, DCode v)"
  by (simp add: kview_def pend_def ktimers_def)

lemma wf_code_block:
  assumes wf: "wf_state s"
  shows "wf_state (code_block c s)"
proof (cases "codeThrottleRef s")
  case (Some i)
  then show ?thesis by (simp add: code_block_def wf_pendingCodeRef_update [OF wf])
next
  case None
  let ?s5 = "s\<lparr>pendingCodeRef := Some c\<rparr>"
  let ?s6 = "sendMessage (code_update_msg c) ?s5"
  have "wf_state (schedule KCode CodeFlushCb ?s6)"
  proof (rule wf_schedule)
    show "wf_state ?s6" by (rule wf_sendMessage [OF wf_pendingCodeRef_update [OF wf]])
    show "kind_of CodeFlushCb = KCode" by simp
    have "ktimers KCode s = []" using ktimers_idle [OF wf, of KCode] None by simp
    then show "ktimers KCode ?s6 = []" by (simp add: ktimers_sendMessage) (simp add: ktimers_def)
  qed
  then show ?thesis using None by (simp add: code_block_def)
qed

lemma code_block_fields:
  "now (code_block c s) = now s"
  "static (code_block c s) = static s"
  by (simp_all add: code_block_def Let_def schedule_fields now_sendMessage static_sendMessage)
    (simp add: static_def)

lemma kview_code_block_other:
  assumes k: "k \<noteq> KCode"
  shows "kview k (code_block c s) = kview k s"
proof (cases "codeThrottleRef s")
  case (Some i)
  then show ?thesis by (simp add: code_block_def kview_pendingCodeRef_update_other [OF k])
next
  case None
  let ?s5 = "s\<lparr>pendingCodeRef := Some c\<rparr>"
  let ?s6 = "sendMessage (code_update_msg c) ?s5"
  have "kview k (schedule KCode CodeFlushCb ?s6) = kview k ?s6"
    by (rule kview_schedule_other [OF k]) simp
  also have "\<dots> = kview k ?s5"
    using k kview_sendMessage [of k "code_update_msg c" ?s5]
    by (simp add: code_update_msg_def) (simp add: kview_def)
  also have "\<dots> = kview k s" by (rule kview_pendingCodeRef_update_other [OF k])
  finally show ?thesis using None by (simp add: code_block_def)
qed

lemma kview_code_block_same:
  assumes wf: "wf_state s"
  shows "kview KCode (code_block c s) =
     (if codeThrottleRef s = None
      then (proj KCode (trace s) @ [(now s, SendMessage (code_update_msg c))],
            [(now s + CODE_WS_THROTTLE_MS, CodeFlushCb)], False, DCode (Some c))
      else (proj KCode (trace s), pend KCode s, False, DCode (Some c)))"
proof (cases "codeThrottleRef s")
  case (Some i)
  then show ?thesis by (simp add: code_block_def kview_pendingCodeRef_update_same)
next
  case None
  let ?s5 = "s\<lparr>pendingCodeRef := Some c\<rparr>"
  let ?s6 = "sendMessage (code_update_msg c) ?s5"
  have e: "pend KCode s = []" using ktimers_idle [OF wf, of KCode] None by (simp add: pend_def)
  have "kview KCode (schedule KCode CodeFlushCb ?s6) =
      (proj KCode (trace ?s6), pend KCode ?s6 @ [(now ?s6 + period KCode, CodeFlushCb)], False,
       kdata KCode ?s6)"
    by (rule kview_schedule_same) simp
  moreover have "kview KCode ?s6 =
      (proj KCode (trace ?s5) @ [(now ?s5, SendMessage (code_update_msg c))], pend KCode ?s5,
       kref KCode ?s5 = None, kdata KCode ?s5)"
    using kview_sendMessage [of KCode "code_update_msg c" ?s5] by (simp add: code_update_msg_def)
  moreover have "pend KCode ?s5 = pend KCode s" by (simp add: pend_def ktimers_def)
  ultimately show ?thesis
    using None e by (simp add: code_block_def kview_def now_sendMessage)
qed

subsection \<open>The persistence block\<close>

lemma wf_persist_block:
  assumes wf: "wf_state s"
  shows "wf_state (persist_block cl c s)"
  unfolding persist_block_def
proof (rule wf_schedule)
  show "wf_state (cancel KPersist s)" by (rule wf_cancel [OF wf]) simp
  show "kind_of (PersistCb (cl_roomId cl) c) = KPersist" by simp
  show "ktimers KPersist (cancel KPersist s) = []" by (rule ktimers_cancel_same [OF wf])
qed

lemma persist_block_fields:
  "now (persist_block cl c s) = now s"
  "static (persist_block cl c s) = static s"
  by (simp_all add: persist_block_def schedule_fields cancel_fields)

lemma kview_persist_block_other:
  assumes wf: "wf_state s" and k: "k \<noteq> KPersist"
  shows "kview k (persist_block cl c s) = kview k s"
proof -
  have "kview k (persist_block cl c s) = kview k (cancel KPersist s)"
    unfolding persist_block_def by (rule kview_schedule_other [OF k]) simp
  also have "\<dots> = kview k s" by (rule kview_cancel_other [OF wf k])
  finally show ?thesis .
qed

lemma kview_persist_block_same:
  assumes wf: "wf_state s"
  shows "kview KPersist (persist_block cl c s) =
     (proj KPersist (trace s), [(now s + CODE_PERSIST_DEBOUNCE_MS, PersistCb (cl_roomId cl) c)],
      False, DPersist)"
proof -
  have "kview KPersist (persist_block cl c s) =
      (proj KPersist (trace (cancel KPersist s)),
       pend KPersist (cancel KPersist s) @
         [(now (cancel KPersist s) + period KPersist, PersistCb (cl_roomId cl) c)],
       False, kdata KPersist (cancel KPersist s))"
    unfolding persist_block_def by (rule kview_schedule_same) simp
  then show ?thesis
    using kview_cancel_same [OF wf, of KPersist] by (simp add: kview_def cancel_fields)
qed

subsection \<open>The whole of \<^verbatim>\<open>handleCodeChange\<close>\<close>

lemma kref_code_update: "kref k (s\<lparr>code := v\<rparr>) = kref k s"
  by (cases k) simp_all

lemma kref_flag_update: "kref k (s\<lparr>isRemoteUpdateRef := b\<rparr>) = kref k s"
  by (cases k) simp_all

lemma wf_code_update:
  assumes wf: "wf_state s"
  shows "wf_state (s\<lparr>code := v\<rparr>)"
proof (rule wf_cong [OF wf])
  show "mtype m = ''cursor-update''" if "pendingCursorRef (s\<lparr>code := v\<rparr>) = Some m" for m
    using that wfD_pending [OF wf, of m] by simp
qed (simp_all add: kref_code_update)

lemma wf_flag_update:
  assumes wf: "wf_state s"
  shows "wf_state (s\<lparr>isRemoteUpdateRef := b\<rparr>)"
proof (rule wf_cong [OF wf])
  show "mtype m = ''cursor-update''" if "pendingCursorRef (s\<lparr>isRemoteUpdateRef := b\<rparr>) = Some m" for m
    using that wfD_pending [OF wf, of m] by simp
qed (simp_all add: kref_flag_update)

lemma kview_code_update: "kview k (s\<lparr>code := v\<rparr>) = kview k s"
  by (intro kview_cong) (cases k; simp)+

lemma kview_flag_update: "kview k (s\<lparr>isRemoteUpdateRef := b\<rparr>) = kview k s"
  by (intro kview_cong) (cases k; simp)+

lemma wf_handleCodeChange:
  assumes wf: "wf_state s"
  shows "wf_state (handleCodeChange cl c s)"
proof (cases "isRemoteUpdateRef s")
  case True
  have "wf_state ((s\<lparr>code := Some c\<rparr>)\<lparr>isRemoteUpdateRef := False\<rparr>)"
    by (intro wf_flag_update wf_code_update wf)
  then show ?thesis using True by (simp add: handleCodeChange_suppressed)
next
  case False
  have "wf_state ((persist_block cl c (code_block c (typing_block cl (s\<lparr>code := Some c\<rparr>))))
             \<lparr>isRemoteUpdateRef := False\<rparr>)"
    by (intro wf_flag_update wf_persist_block wf_code_block wf_typing_block wf_code_update wf)
  then show ?thesis using False by (simp add: handleCodeChange_blocks)
qed

lemma handleCodeChange_fields:
  "now (handleCodeChange cl c s) = now s"
  "isRemoteUpdateRef (handleCodeChange cl c s) = False"
  "roomId (handleCodeChange cl c s) = roomId s"
  "username (handleCodeChange cl c s) = username s"
  "participants (handleCodeChange cl c s) = participants s"
  "currentUserId (handleCodeChange cl c s) = currentUserId s"
proof -
  let ?s1 = "s\<lparr>code := Some c\<rparr>"
  let ?s8 = "persist_block cl c (code_block c (typing_block cl ?s1))"
  have n: "now ?s8 = now s"
    by (simp add: persist_block_fields code_block_fields typing_block_fields)
  have "static ?s8 = static ?s1"
    by (simp add: persist_block_fields code_block_fields typing_block_fields)
  then have st: "roomId ?s8 = roomId s" "username ?s8 = username s"
    "participants ?s8 = participants s" "currentUserId ?s8 = currentUserId s"
    by (simp_all add: static_def)
  show "now (handleCodeChange cl c s) = now s"
    using n by (cases "isRemoteUpdateRef s")
      (simp_all add: handleCodeChange_suppressed handleCodeChange_blocks)
  show "isRemoteUpdateRef (handleCodeChange cl c s) = False"
    by (cases "isRemoteUpdateRef s")
      (simp_all add: handleCodeChange_suppressed handleCodeChange_blocks)
  show "roomId (handleCodeChange cl c s) = roomId s"
    using st by (cases "isRemoteUpdateRef s")
      (simp_all add: handleCodeChange_suppressed handleCodeChange_blocks)
  show "username (handleCodeChange cl c s) = username s"
    using st by (cases "isRemoteUpdateRef s")
      (simp_all add: handleCodeChange_suppressed handleCodeChange_blocks)
  show "participants (handleCodeChange cl c s) = participants s"
    using st by (cases "isRemoteUpdateRef s")
      (simp_all add: handleCodeChange_suppressed handleCodeChange_blocks)
  show "currentUserId (handleCodeChange cl c s) = currentUserId s"
    using st by (cases "isRemoteUpdateRef s")
      (simp_all add: handleCodeChange_suppressed handleCodeChange_blocks)
qed

lemma kview_handleCodeChange_typing:
  assumes wf: "wf_state s" and f: "\<not> isRemoteUpdateRef s"
  shows "kview KTyping (handleCodeChange cl c s) =
     (proj KTyping (trace s), [(now s + 3000, TypingStopCb (cl_username cl))], False,
      DTyping (if cl_isTyping cl then isTyping s else True))"
proof -
  let ?s1 = "s\<lparr>code := Some c\<rparr>"
  let ?s3 = "typing_block cl ?s1"
  let ?s6 = "code_block c ?s3"
  have wf1: "wf_state ?s1" by (rule wf_code_update [OF wf])
  have wf6: "wf_state ?s6" by (intro wf_code_block wf_typing_block wf1)
  have "kview KTyping (handleCodeChange cl c s) = kview KTyping (persist_block cl c ?s6)"
    by (simp add: handleCodeChange_blocks [OF f] kview_flag_update)
  also have "\<dots> = kview KTyping ?s6" by (rule kview_persist_block_other [OF wf6]) simp
  also have "\<dots> = kview KTyping ?s3" by (rule kview_code_block_other) simp
  finally show ?thesis
    using kview_typing_block_same [OF wf1] kview_code_update [where k = KTyping and s = s and v = "Some c"]
    by (simp add: kview_def)
qed

lemma kview_handleCodeChange_code:
  assumes wf: "wf_state s" and f: "\<not> isRemoteUpdateRef s"
  shows "kview KCode (handleCodeChange cl c s) =
     (if codeThrottleRef s = None
      then (proj KCode (trace s) @ [(now s, SendMessage (code_update_msg c))],
            [(now s + CODE_WS_THROTTLE_MS, CodeFlushCb)], False, DCode (Some c))
      else (proj KCode (trace s), pend KCode s, False, DCode (Some c)))"
proof -
  let ?s1 = "s\<lparr>code := Some c\<rparr>"
  let ?s3 = "typing_block cl ?s1"
  let ?s6 = "code_block c ?s3"
  have wf1: "wf_state ?s1" by (rule wf_code_update [OF wf])
  have wf3: "wf_state ?s3" by (rule wf_typing_block [OF wf1])
  have wf6: "wf_state ?s6" by (rule wf_code_block [OF wf3])
  have v3: "kview KCode ?s3 = kview KCode s"
    using kview_typing_block_other [OF wf1, of KCode] by (simp add: kview_code_update)
  have "kview KCode (handleCodeChange cl c s) = kview KCode (persist_block cl c ?s6)"
    by (simp add: handleCodeChange_blocks [OF f] kview_flag_update)
  also have "\<dots> = kview KCode ?s6" by (rule kview_persist_block_other [OF wf6]) simp
  finally show ?thesis
    using kview_code_block_same [OF wf3, of c] v3
    by (simp add: kview_def typing_block_fields split: if_splits)
qed

lemma kview_handleCodeChange_persist:
  assumes wf: "wf_state s" and f: "\<not> isRemoteUpdateRef s"
  shows "kview KPersist (handleCodeChange cl c s) =
     (proj KPersist (trace s), [(now s + CODE_PERSIST_DEBOUNCE_MS, PersistCb (cl_roomId cl) c)],
      False, DPersist)"
proof -
  let ?s1 = "s\<lparr>code := Some c\<rparr>"
  let ?s3 = "typing_block cl ?s1"
  let ?s6 = "code_block c ?s3"
  have wf1: "wf_state ?s1" by (rule wf_code_update [OF wf])
  have wf6: "wf_state ?s6" by (intro wf_code_block wf_typing_block wf1)
  have v6: "kview KPersist ?s6 = kview KPersist s"
    using kview_code_block_other [of KPersist c ?s3] kview_typing_block_other [OF wf1, of KPersist]
    by (simp add: kview_code_update)
  have n6: "now ?s6 = now s" by (simp add: code_block_fields typing_block_fields)
  have "static ?s6 = static ?s1" by (simp add: code_block_fields typing_block_fields)
  then have r6: "roomId ?s6 = roomId s" by (simp add: static_def)
  have "kview KPersist (handleCodeChange cl c s) = kview KPersist (persist_block cl c ?s6)"
    by (simp add: handleCodeChange_blocks [OF f] kview_flag_update)
  then show ?thesis
    using kview_persist_block_same [OF wf6, of cl c] v6 n6 r6 by (simp add: kview_def)
qed

lemma kview_handleCodeChange_cursor:
  assumes wf: "wf_state s"
  shows "kview KCursor (handleCodeChange cl c s) = kview KCursor s"
proof (cases "isRemoteUpdateRef s")
  case True
  then show ?thesis
    using kview_flag_update [where k = KCursor and s = "s\<lparr>code := Some c\<rparr>" and b = False]
    by (simp add: handleCodeChange_suppressed kview_code_update)
next
  case False
  let ?s1 = "s\<lparr>code := Some c\<rparr>"
  let ?s3 = "typing_block cl ?s1"
  let ?s6 = "code_block c ?s3"
  have wf1: "wf_state ?s1" by (rule wf_code_update [OF wf])
  have wf6: "wf_state ?s6" by (intro wf_code_block wf_typing_block wf1)
  have "kview KCursor (handleCodeChange cl c s) = kview KCursor (persist_block cl c ?s6)"
    by (simp add: handleCodeChange_blocks [OF False] kview_flag_update)
  also have "\<dots> = kview KCursor ?s6" by (rule kview_persist_block_other [OF wf6]) simp
  also have "\<dots> = kview KCursor ?s3" by (rule kview_code_block_other) simp
  also have "\<dots> = kview KCursor ?s1" by (rule kview_typing_block_other [OF wf1]) simp
  finally show ?thesis by (simp add: kview_code_update)
qed

lemma kview_wait_idle:
  assumes "wf_state s" and "\<And>p. p \<in> set (pend k s) \<Longrightarrow> now s + d < fst p"
  shows "kview k (wait d s) = kview k s"
  unfolding wait_def using assms by (rule kview_advance_idle)

lemma kview_wait_fires:
  assumes "wf_state s" and "pend k s = [(D, c)]" and "D \<le> now s + d"
  shows "kview k (wait d s) =
           (proj k (trace s) @ fst (fired D c (kdata k s)), [],
            (kref k s = None \<or> k = KCode \<or> k = KCursor),
            snd (fired D c (kdata k s)))"
  unfolding wait_def using assms by (rule kview_advance_fires)

lemma wait_fields:
  "isRemoteUpdateRef (wait d s) = isRemoteUpdateRef s"
  "roomId (wait d s) = roomId s"
  "username (wait d s) = username s"
  "participants (wait d s) = participants s"
  "currentUserId (wait d s) = currentUserId s"
  using static_wait [of d s] by (simp_all add: static_def)

lemma run_edits_basic:
  assumes "wf_state s"
  shows "wf_state (run_edits cl es s)
    \<and> now (run_edits cl es s) = now s + sum_list (map fst es)
    \<and> roomId (run_edits cl es s) = roomId s
    \<and> username (run_edits cl es s) = username s
    \<and> (es \<noteq> [] \<longrightarrow> \<not> isRemoteUpdateRef (run_edits cl es s))
    \<and> (es = [] \<longrightarrow> run_edits cl es s = s)"
  using assms
proof (induction es arbitrary: s)
  case Nil
  then show ?case by simp
next
  case (Cons e es)
  obtain d c where e: "e = (d, c)" by (cases e)
  let ?s' = "handleCodeChange cl c (wait d s)"
  have wf': "wf_state ?s'" by (intro wf_handleCodeChange wf_wait Cons.prems)
  have n': "now ?s' = now s + d" by (simp add: handleCodeChange_fields now_wait)
  have f': "\<not> isRemoteUpdateRef ?s'" by (simp add: handleCodeChange_fields)
  have r': "roomId ?s' = roomId s" "username ?s' = username s"
    by (simp_all add: handleCodeChange_fields wait_fields)
  from Cons.IH [OF wf'] have
    "wf_state (run_edits cl es ?s')"
    "now (run_edits cl es ?s') = now ?s' + sum_list (map fst es)"
    "roomId (run_edits cl es ?s') = roomId ?s'"
    "username (run_edits cl es ?s') = username ?s'"
    "es \<noteq> [] \<longrightarrow> \<not> isRemoteUpdateRef (run_edits cl es ?s')"
    "es = [] \<longrightarrow> run_edits cl es ?s' = ?s'"
    by simp_all
  then show ?case using n' f' r' by (cases "es = []") (simp_all add: e)
qed

subsection \<open>Typing\<close>

text \<open>
  With the remote flag clear, in any state of the page and through any closure: an edit and
  the edits that follow it, each less than 3000 ms after the one before, send no
  \<^verbatim>\<open>typing-stop\<close>; exactly one is sent 3000 ms after the last of them, once the page
  has been idle that long, and it carries the name the closure captured.
\<close>

lemma typing_keeps_going:
  assumes "wf_state s" and "\<not> isRemoteUpdateRef s"
    and "proj KTyping (trace s) = P"
    and "pend KTyping s = [(now s + 3000, TypingStopCb (cl_username cl))]"
    and "\<And>e. e \<in> set es \<Longrightarrow> fst e < 3000"
  shows "proj KTyping (trace (run_edits cl es s)) = P
       \<and> pend KTyping (run_edits cl es s) =
           [(now (run_edits cl es s) + 3000, TypingStopCb (cl_username cl))]"
  using assms
proof (induction es arbitrary: s)
  case Nil
  then show ?case by simp
next
  case (Cons e es)
  obtain d c where e: "e = (d, c)" by (cases e)
  have d: "d < 3000" using Cons.prems(5) [of e] e by simp
  let ?w = "wait d s"
  let ?s' = "handleCodeChange cl c ?w"
  have wfw: "wf_state ?w" by (rule wf_wait [OF Cons.prems(1)])
  have fw: "\<not> isRemoteUpdateRef ?w" using Cons.prems(2) by (simp add: wait_fields)
  have "kview KTyping ?w = kview KTyping s"
    using d Cons.prems(4) by (intro kview_wait_idle [OF Cons.prems(1)]) simp
  then have pw: "proj KTyping (trace ?w) = P"
    using Cons.prems(3) by (simp add: kview_def)
  have v': "proj KTyping (trace ?s') = P"
    "pend KTyping ?s' = [(now ?s' + 3000, TypingStopCb (cl_username cl))]"
    using kview_handleCodeChange_typing [OF wfw fw, of cl c] pw
    by (simp_all add: kview_def handleCodeChange_fields)
  have "proj KTyping (trace (run_edits cl es ?s')) = P
       \<and> pend KTyping (run_edits cl es ?s') =
           [(now (run_edits cl es ?s') + 3000, TypingStopCb (cl_username cl))]"
  proof (rule Cons.IH [OF _ _ v'])
    show "wf_state ?s'" by (rule wf_handleCodeChange [OF wfw])
    show "\<not> isRemoteUpdateRef ?s'" by (simp add: handleCodeChange_fields)
    show "fst x < 3000" if "x \<in> set es" for x using Cons.prems(5) [of x] that by simp
  qed
  then show ?case by (simp add: e)
qed

lemma typing_burst:
  assumes wf: "wf_state s" and f: "\<not> isRemoteUpdateRef s"
    and es: "\<And>e. e \<in> set es \<Longrightarrow> fst e < 3000"
  shows "proj KTyping (trace (wait d (run_edits cl es (handleCodeChange cl c s)))) =
           proj KTyping (trace s) @
             (if d < 3000 then []
              else [(now s + sum_list (map fst es) + 3000,
                     SendMessage (typing_stop_msg (cl_username cl)))])"
proof -
  let ?P = "proj KTyping (trace s)"
  let ?s1 = "handleCodeChange cl c s"
  let ?s2 = "run_edits cl es ?s1"
  let ?cb = "TypingStopCb (cl_username cl)"
  have wf1: "wf_state ?s1" by (rule wf_handleCodeChange [OF wf])
  have f1: "\<not> isRemoteUpdateRef ?s1" by (simp add: handleCodeChange_fields)
  have v1: "proj KTyping (trace ?s1) = ?P" "pend KTyping ?s1 = [(now ?s1 + 3000, ?cb)]"
    using kview_handleCodeChange_typing [OF wf f, of cl c]
    by (simp_all add: kview_def handleCodeChange_fields)
  have v2: "proj KTyping (trace ?s2) = ?P \<and> pend KTyping ?s2 = [(now ?s2 + 3000, ?cb)]"
    by (rule typing_keeps_going [OF wf1 f1 v1 es])
  then have t2: "proj KTyping (trace ?s2) = ?P" and p2: "pend KTyping ?s2 = [(now ?s2 + 3000, ?cb)]"
    by simp_all
  have b: "wf_state ?s2" "now ?s2 = now ?s1 + sum_list (map fst es)"
    using run_edits_basic [OF wf1, of cl es] by simp_all
  show ?thesis
  proof (cases "d < 3000")
    case True
    have "kview KTyping (wait d ?s2) = kview KTyping ?s2"
      using True p2 by (intro kview_wait_idle [OF b(1)]) simp
    then show ?thesis using True t2 by (simp add: kview_def)
  next
    case False
    have "kview KTyping (wait d ?s2) =
           (proj KTyping (trace ?s2) @ fst (fired (now ?s2 + 3000) ?cb (kdata KTyping ?s2)), [],
            (kref KTyping ?s2 = None \<or> KTyping = KCode \<or> KTyping = KCursor),
            snd (fired (now ?s2 + 3000) ?cb (kdata KTyping ?s2)))"
      using False by (intro kview_wait_fires [OF b(1) p2]) simp
    then show ?thesis
      using False t2 b(2) by (simp add: kview_def handleCodeChange_fields)
  qed
qed

subsection \<open>Persistence\<close>

text \<open>
  With the remote flag clear: an edit and the edits that follow it, each less than 1000 ms
  after the one before, call \<^verbatim>\<open>updateRoomCode\<close> exactly once, 1000 ms after the last
  of them, with the room id the closure captured and the text of the last edit, and not at
  all before that.
\<close>

lemma persist_keeps_going:
  assumes "wf_state s" and "\<not> isRemoteUpdateRef s"
    and "kview KPersist s =
           (P, [(now s + CODE_PERSIST_DEBOUNCE_MS, PersistCb (cl_roomId cl) c0)], False, DPersist)"
    and "\<And>e. e \<in> set es \<Longrightarrow> fst e < CODE_PERSIST_DEBOUNCE_MS"
  shows "kview KPersist (run_edits cl es s) =
           (P, [(now (run_edits cl es s) + CODE_PERSIST_DEBOUNCE_MS,
                 PersistCb (cl_roomId cl) (last (c0 # map snd es)))], False, DPersist)"
  using assms
proof (induction es arbitrary: s c0)
  case Nil
  then show ?case by simp
next
  case (Cons e es)
  obtain d c where e: "e = (d, c)" by (cases e)
  have d: "d < CODE_PERSIST_DEBOUNCE_MS" using Cons.prems(4) [of e] e by simp
  let ?w = "wait d s"
  let ?s' = "handleCodeChange cl c ?w"
  have wfw: "wf_state ?w" by (rule wf_wait [OF Cons.prems(1)])
  have fw: "\<not> isRemoteUpdateRef ?w" using Cons.prems(2) by (simp add: wait_fields)
  have "pend KPersist s = [(now s + CODE_PERSIST_DEBOUNCE_MS, PersistCb (cl_roomId cl) c0)]"
    using Cons.prems(3) by (simp add: kview_def)
  then have "kview KPersist ?w = kview KPersist s"
    using d by (intro kview_wait_idle [OF Cons.prems(1)]) simp
  then have pw: "proj KPersist (trace ?w) = P"
    using Cons.prems(3) by (simp add: kview_def)
  have v': "kview KPersist ?s' =
      (P, [(now ?s' + CODE_PERSIST_DEBOUNCE_MS, PersistCb (cl_roomId cl) c)], False, DPersist)"
    using kview_handleCodeChange_persist [OF wfw fw, of cl c] pw
    by (simp add: handleCodeChange_fields)
  have "kview KPersist (run_edits cl es ?s') =
      (P, [(now (run_edits cl es ?s') + CODE_PERSIST_DEBOUNCE_MS,
            PersistCb (cl_roomId cl) (last (c # map snd es)))], False, DPersist)"
  proof (rule Cons.IH [OF _ _ v'])
    show "wf_state ?s'" by (rule wf_handleCodeChange [OF wfw])
    show "\<not> isRemoteUpdateRef ?s'" by (simp add: handleCodeChange_fields)
    show "fst x < CODE_PERSIST_DEBOUNCE_MS" if "x \<in> set es" for x
      using Cons.prems(4) [of x] that by simp
  qed
  then show ?case by (simp add: e handleCodeChange_fields wait_fields)
qed

lemma persist_burst:
  assumes wf: "wf_state s" and f: "\<not> isRemoteUpdateRef s"
    and es: "\<And>e. e \<in> set es \<Longrightarrow> fst e < CODE_PERSIST_DEBOUNCE_MS"
  shows "proj KPersist (trace (wait d (run_edits cl es (handleCodeChange cl c s)))) =
           proj KPersist (trace s) @
             (if d < CODE_PERSIST_DEBOUNCE_MS then []
              else [(now s + sum_list (map fst es) + CODE_PERSIST_DEBOUNCE_MS,
                     UpdateRoomCode (cl_roomId cl) (last (c # map snd es)))])"
proof -
  let ?P = "proj KPersist (trace s)"
  let ?s1 = "handleCodeChange cl c s"
  let ?s2 = "run_edits cl es ?s1"
  let ?cb = "PersistCb (cl_roomId cl) (last (c # map snd es))"
  have wf1: "wf_state ?s1" by (rule wf_handleCodeChange [OF wf])
  have f1: "\<not> isRemoteUpdateRef ?s1" by (simp add: handleCodeChange_fields)
  have v1: "kview KPersist ?s1 =
      (?P, [(now ?s1 + CODE_PERSIST_DEBOUNCE_MS, PersistCb (cl_roomId cl) c)], False, DPersist)"
    using kview_handleCodeChange_persist [OF wf f, of cl c] by (simp add: handleCodeChange_fields)
  have v2: "kview KPersist ?s2 = (?P, [(now ?s2 + CODE_PERSIST_DEBOUNCE_MS, ?cb)], False, DPersist)"
    by (rule persist_keeps_going [OF wf1 f1 v1 es])
  have b: "wf_state ?s2" "now ?s2 = now ?s1 + sum_list (map fst es)"
    using run_edits_basic [OF wf1, of cl es] by simp_all
  from v2 have p2: "pend KPersist ?s2 = [(now ?s2 + CODE_PERSIST_DEBOUNCE_MS, ?cb)]"
    and t2: "proj KPersist (trace ?s2) = ?P"
    by (simp_all add: kview_def)
  show ?thesis
  proof (cases "d < CODE_PERSIST_DEBOUNCE_MS")
    case True
    have "kview KPersist (wait d ?s2) = kview KPersist ?s2"
      using True p2 by (intro kview_wait_idle [OF b(1)]) simp
    then show ?thesis using True t2 by (simp add: kview_def)
  next
    case False
    have "kview KPersist (wait d ?s2) =
           (proj KPersist (trace ?s2) @
              fst (fired (now ?s2 + CODE_PERSIST_DEBOUNCE_MS) ?cb (kdata KPersist ?s2)), [],
            (kref KPersist ?s2 = None \<or> KPersist = KCode \<or> KPersist = KCursor),
            snd (fired (now ?s2 + CODE_PERSIST_DEBOUNCE_MS) ?cb (kdata KPersist ?s2)))"
      using False by (intro kview_wait_fires [OF b(1) p2]) simp
    then show ?thesis
      using False t2 b(2) by (simp add: kview_def handleCodeChange_fields)
  qed
qed

subsection \<open>Broadcast\<close>

text \<open>
  With the remote flag clear. When no flush is pending, an edit and the edits that follow
  it within less than 50 ms in all give exactly two \<^verbatim>\<open>code-update\<close> messages: the
  text of the first edit at once, and the text of the last edit when the window closes
  (lemma \<open>code_window\<close>). Whatever the spacing of the edits, the last
  \<^verbatim>\<open>code-update\<close> sent by 50 ms after the last edit carries the text of the last edit
  (lemma \<open>code_eventually\<close>).
\<close>

lemma code_window_going:
  assumes "wf_state s" and "\<not> isRemoteUpdateRef s"
    and "kview KCode s = (P, [(D, CodeFlushCb)], False, DCode (Some c0))"
    and "now s + sum_list (map fst es) < D"
  shows "kview KCode (run_edits cl es s) =
           (P, [(D, CodeFlushCb)], False, DCode (Some (last (c0 # map snd es))))"
  using assms
proof (induction es arbitrary: s c0)
  case Nil
  then show ?case by simp
next
  case (Cons e es)
  obtain d c where e: "e = (d, c)" by (cases e)
  have d: "now s + d < D" and r: "now s + d + sum_list (map fst es) < D"
    using Cons.prems(4) e by simp_all
  let ?w = "wait d s"
  let ?s' = "handleCodeChange cl c ?w"
  have wfw: "wf_state ?w" by (rule wf_wait [OF Cons.prems(1)])
  have fw: "\<not> isRemoteUpdateRef ?w" using Cons.prems(2) by (simp add: wait_fields)
  have "pend KCode s = [(D, CodeFlushCb)]"
    using Cons.prems(3) by (simp add: kview_def)
  then have "kview KCode ?w = kview KCode s"
    using d by (intro kview_wait_idle [OF Cons.prems(1)]) simp
  then have pw: "proj KCode (trace ?w) = P" "pend KCode ?w = [(D, CodeFlushCb)]"
    "codeThrottleRef ?w \<noteq> None"
    using Cons.prems(3) by (simp_all add: kview_def)
  have v': "kview KCode ?s' = (P, [(D, CodeFlushCb)], False, DCode (Some c))"
    using kview_handleCodeChange_code [OF wfw fw, of cl c] pw by simp
  have "kview KCode (run_edits cl es ?s') =
      (P, [(D, CodeFlushCb)], False, DCode (Some (last (c # map snd es))))"
  proof (rule Cons.IH [OF _ _ v'])
    show "wf_state ?s'" by (rule wf_handleCodeChange [OF wfw])
    show "\<not> isRemoteUpdateRef ?s'" by (simp add: handleCodeChange_fields)
    show "now ?s' + sum_list (map fst es) < D"
      using r by (simp add: handleCodeChange_fields now_wait)
  qed
  then show ?case by (simp add: e)
qed

lemma code_window:
  assumes wf: "wf_state s" and f: "\<not> isRemoteUpdateRef s" and i: "codeThrottleRef s = None"
    and w: "sum_list (map fst es) < CODE_WS_THROTTLE_MS"
  shows "proj KCode (trace (advance (now s + CODE_WS_THROTTLE_MS)
                               (run_edits cl es (handleCodeChange cl c s)))) =
           proj KCode (trace s) @
             [(now s, SendMessage (code_update_msg c)),
              (now s + CODE_WS_THROTTLE_MS, SendMessage (code_update_msg (last (c # map snd es))))]"
proof -
  let ?P = "proj KCode (trace s) @ [(now s, SendMessage (code_update_msg c))]"
  let ?D = "now s + CODE_WS_THROTTLE_MS"
  let ?s1 = "handleCodeChange cl c s"
  let ?s2 = "run_edits cl es ?s1"
  have wf1: "wf_state ?s1" by (rule wf_handleCodeChange [OF wf])
  have f1: "\<not> isRemoteUpdateRef ?s1" by (simp add: handleCodeChange_fields)
  have v1: "kview KCode ?s1 = (?P, [(?D, CodeFlushCb)], False, DCode (Some c))"
    using kview_handleCodeChange_code [OF wf f, of cl c] i by simp
  have v2: "kview KCode ?s2 = (?P, [(?D, CodeFlushCb)], False, DCode (Some (last (c # map snd es))))"
    using w by (intro code_window_going [OF wf1 f1 v1]) (simp add: handleCodeChange_fields)
  have b: "wf_state ?s2" using run_edits_basic [OF wf1, of cl es] by simp
  from v2 have p2: "pend KCode ?s2 = [(?D, CodeFlushCb)]"
    and t2: "proj KCode (trace ?s2) = ?P"
    and d2: "kdata KCode ?s2 = DCode (Some (last (c # map snd es)))"
    by (simp_all add: kview_def)
  have "kview KCode (advance ?D ?s2) =
           (proj KCode (trace ?s2) @ fst (fired ?D CodeFlushCb (kdata KCode ?s2)), [],
            (kref KCode ?s2 = None \<or> KCode = KCode \<or> KCode = KCursor),
            snd (fired ?D CodeFlushCb (kdata KCode ?s2)))"
    by (intro kview_advance_fires [OF b p2]) simp
  then show ?thesis using t2 d2 by (simp add: kview_def)
qed

lemma run_edits_snoc:
  "run_edits cl (es @ [(d, c)]) s = handleCodeChange cl c (wait d (run_edits cl es s))"
  by (induction es arbitrary: s) auto

lemma code_flush_pending:
  assumes wf: "wf_state s" and f: "\<not> isRemoteUpdateRef s"
  shows "\<exists>P D. D \<le> now s + CODE_WS_THROTTLE_MS \<and>
           kview KCode (handleCodeChange cl c s) = (P, [(D, CodeFlushCb)], False, DCode (Some c))"
proof (cases "codeThrottleRef s")
  case None
  then show ?thesis using kview_handleCodeChange_code [OF wf f, of cl c] by simp
next
  case (Some i)
  then have "ktimers KCode s \<noteq> []" using wfD_code [OF wf] by simp
  then obtain tm where tm: "tm \<in> set (ktimers KCode s)" by (cases "ktimers KCode s") auto
  then have in_t: "tm \<in> set (timers s)" and k: "kind_of (cb tm) = KCode"
    by (simp_all add: ktimers_def)
  from k have cb: "cb tm = CodeFlushCb" by (cases "cb tm") simp_all
  have "ktimers KCode s = [tm]" using ktimers_own [OF wf in_t] k by simp
  then have p: "pend KCode s = [(due tm, CodeFlushCb)]" by (simp add: pend_def cb)
  have "due tm \<le> now s + CODE_WS_THROTTLE_MS" using wfD_ub [OF wf in_t] k by simp
  then show ?thesis using kview_handleCodeChange_code [OF wf f, of cl c] Some p by simp
qed

lemma code_eventually:
  assumes wf: "wf_state s" and f: "\<not> isRemoteUpdateRef s"
  shows "\<exists>P D. D \<le> now s + sum_list (map fst es) + CODE_WS_THROTTLE_MS \<and>
           proj KCode (trace (wait CODE_WS_THROTTLE_MS (run_edits cl es (handleCodeChange cl c s)))) =
             P @ [(D, SendMessage (code_update_msg (last (c # map snd es))))]"
proof -
  let ?s2 = "run_edits cl es (handleCodeChange cl c s)"
  let ?c = "last (c # map snd es)"
  have wf1: "wf_state (handleCodeChange cl c s)" by (rule wf_handleCodeChange [OF wf])
  have b: "wf_state ?s2" "now ?s2 = now s + sum_list (map fst es)"
    using run_edits_basic [OF wf1, of cl es] by (simp_all add: handleCodeChange_fields)
  have "\<exists>P D. D \<le> now ?s2 + CODE_WS_THROTTLE_MS \<and>
           kview KCode ?s2 = (P, [(D, CodeFlushCb)], False, DCode (Some ?c))"
  proof (cases es rule: rev_cases)
    case Nil
    then show ?thesis using code_flush_pending [OF wf f, of cl c] by (simp add: handleCodeChange_fields)
  next
    case (snoc es' e)
    obtain d c' where e: "e = (d, c')" by (cases e)
    let ?s0 = "wait d (run_edits cl es' (handleCodeChange cl c s))"
    have wf0: "wf_state ?s0"
      using run_edits_basic [OF wf1, of cl es'] by (simp add: wf_wait)
    have "\<not> isRemoteUpdateRef (run_edits cl es' (handleCodeChange cl c s))"
      using run_edits_basic [OF wf1, of cl es'] by (cases "es' = []") (simp_all add: handleCodeChange_fields)
    then have f0: "\<not> isRemoteUpdateRef ?s0" by (simp add: wait_fields)
    have "?s2 = handleCodeChange cl c' ?s0" by (simp add: snoc e run_edits_snoc)
    then show ?thesis
      using code_flush_pending [OF wf0 f0, of cl c'] by (simp add: snoc e handleCodeChange_fields)
  qed
  then obtain P D where D: "D \<le> now ?s2 + CODE_WS_THROTTLE_MS"
    and v: "kview KCode ?s2 = (P, [(D, CodeFlushCb)], False, DCode (Some ?c))"
    by blast
  from v have p2: "pend KCode ?s2 = [(D, CodeFlushCb)]" and t2: "proj KCode (trace ?s2) = P"
    and d2: "kdata KCode ?s2 = DCode (Some ?c)"
    by (simp_all add: kview_def)
  have "kview KCode (wait CODE_WS_THROTTLE_MS ?s2) =
           (proj KCode (trace ?s2) @ fst (fired D CodeFlushCb (kdata KCode ?s2)), [],
            (kref KCode ?s2 = None \<or> KCode = KCode \<or> KCode = KCursor),
            snd (fired D CodeFlushCb (kdata KCode ?s2)))"
    using D by (intro kview_wait_fires [OF b(1) p2]) simp
  then have "proj KCode (trace (wait CODE_WS_THROTTLE_MS ?s2)) =
      P @ [(D, SendMessage (code_update_msg ?c))]"
    using t2 d2 by (simp add: kview_def)
  then show ?thesis using D b(2) by auto
qed

subsection \<open>Cursor changes\<close>

lemma handleCursorChange_user:
  assumes "has_user cl cu"
  shows "handleCursorChange cl cd s =
           (let s1 = s\<lparr>pendingCursorRef := Some (cursor_update_msg (cl_currentUserId cl) cu cd)\<rparr>
            in if cursorThrottleRef s = None then schedule KCursor CursorFlushCb s1 else s1)"
  using assms
  by (simp add: handleCursorChange_def has_user_def schedule_def setTimeout_def Let_def)

lemma kref_pendingCursorRef_update: "kref k (s\<lparr>pendingCursorRef := v\<rparr>) = kref k s"
  by (cases k) simp_all

lemma wf_pendingCursorRef_update:
  assumes wf: "wf_state s" and m: "mtype m = ''cursor-update''"
  shows "wf_state (s\<lparr>pendingCursorRef := Some m\<rparr>)"
proof (rule wf_cong [OF wf])
  show "mtype x = ''cursor-update''" if "pendingCursorRef (s\<lparr>pendingCursorRef := Some m\<rparr>) = Some x" for x
    using that m by simp
qed (simp_all add: kref_pendingCursorRef_update)

lemma mtype_cursor_update_msg: "mtype (cursor_update_msg u cu cd) = ''cursor-update''"
  by (simp add: cursor_update_msg_def)

lemma wf_handleCursorChange:
  assumes wf: "wf_state s"
  shows "wf_state (handleCursorChange cl cd s)"
proof (cases "\<exists>cu. has_user cl cu")
  case False
  then have "handleCursorChange cl cd s = s"
    by (auto simp: handleCursorChange_def has_user_def split: option.splits)
  then show ?thesis using wf by simp
next
  case True
  then obtain cu where cu: "has_user cl cu" by blast
  let ?s1 = "s\<lparr>pendingCursorRef := Some (cursor_update_msg (cl_currentUserId cl) cu cd)\<rparr>"
  have wf1: "wf_state ?s1"
    by (rule wf_pendingCursorRef_update [OF wf mtype_cursor_update_msg])
  show ?thesis
  proof (cases "cursorThrottleRef s")
    case (Some i)
    then show ?thesis using wf1 by (simp add: handleCursorChange_user [OF cu])
  next
    case None
    have "wf_state (schedule KCursor CursorFlushCb ?s1)"
    proof (rule wf_schedule [OF wf1])
      show "kind_of CursorFlushCb = KCursor" by simp
      have "ktimers KCursor s = []" using ktimers_idle [OF wf, of KCursor] None by simp
      then show "ktimers KCursor ?s1 = []" by (simp add: ktimers_def)
    qed
    then show ?thesis using None by (simp add: handleCursorChange_user [OF cu])
  qed
qed








lemma wf_no_timers:
  assumes "timers s = []" and "typingTimeoutRef s = None" and "codeThrottleRef s = None"
    and "persistTimerRef s = None" and "cursorThrottleRef s = None" and "pendingCursorRef s = None"
  shows "wf_state s"
proof -
  have "kref k s = None" for k using assms by (cases k) simp_all
  then show ?thesis using assms by (simp add: wf_state_def ktimers_def)
qed

lemma wf_initial_state: "wf_state (initial_state r u)"
  by (rule wf_no_timers) (simp_all add: initial_state_def)


lemma trace_typing_block: "trace (typing_block cl s) = trace (typing_start cl s)"
  by (simp add: typing_block_def schedule_fields cancel_fields)

lemma codeThrottleRef_typing_block: "codeThrottleRef (typing_block cl s) = codeThrottleRef s"
proof -
  have "kref KCode (typing_start cl s) = kref KCode s"
    by (cases "cl_isTyping cl") (simp_all add: typing_start_def sendMessage_def)
  then have "kref KCode (typing_block cl s) = kref KCode s"
    by (simp add: typing_block_def kref_schedule kref_cancel)
  then show ?thesis by simp
qed

text \<open>
  What one call of \<^verbatim>\<open>handleCodeChange\<close> sends at once, with the remote flag clear: a
  \<^verbatim>\<open>typing-start\<close> unless the closure was made in a render where \<^verbatim>\<open>isTyping\<close> was
  set, whatever the typing flag is now, and the edit's text when no flush is pending.
\<close>

lemma trace_handleCodeChange:
  assumes f: "\<not> isRemoteUpdateRef s"
  shows "trace (handleCodeChange cl c s) =
           trace s
           @ (if cl_isTyping cl then []
              else [(now s, SendMessage (typing_start_msg (cl_username cl)))])
           @ (if codeThrottleRef s = None then [(now s, SendMessage (code_update_msg c))] else [])"
proof -
  let ?s1 = "s\<lparr>code := Some c\<rparr>"
  let ?s3 = "typing_block cl ?s1"
  have r: "codeThrottleRef ?s3 = codeThrottleRef s" by (simp add: codeThrottleRef_typing_block)
  have n: "now ?s3 = now s" by (simp add: typing_block_fields)
  have "trace (code_block c ?s3) =
      trace ?s3 @ (if codeThrottleRef s = None then [(now s, SendMessage (code_update_msg c))] else [])"
    using r n by (simp add: code_block_def schedule_fields sendMessage_def Let_def)
  moreover have "trace ?s3 =
      trace s @ (if cl_isTyping cl then []
                 else [(now s, SendMessage (typing_start_msg (cl_username cl)))])"
    by (simp add: trace_typing_block trace_typing_start)
  moreover have "trace (handleCodeChange cl c s) = trace (code_block c ?s3)"
    by (simp add: handleCodeChange_blocks [OF f] persist_block_def schedule_fields cancel_fields)
  ultimately show ?thesis by simp
qed


lemma typing_start_every_call:
  assumes f: "\<not> isRemoteUpdateRef s" and t: "\<not> cl_isTyping cl"
  shows "(now s, SendMessage \<lparr>mtype = ''typing-start'',
            mdata = Some (no_data\<lparr>d_username := Some (cl_username cl)\<rparr>), musername = None\<rparr>)
          \<in> set (trace (handleCodeChange cl c s))"
  using t by (simp add: trace_handleCodeChange [OF f] typing_start_msg_def)

lemma wait_no_timers: "timers s = [] \<Longrightarrow> wait d s = s\<lparr>now := now s + d\<rparr>"
  by (simp add: wait_def advance_def Let_def run_timers.simps next_due_def)

lemma editor_room_with_user: "editor room_with_user = Some room_closure"
  by (simp add: room_with_user_def roomLoaded_def mountEditor_def render_closure_def
      initial_state_def room_closure_def alice_def)

lemma room_fields:
  "now room_with_user = 0"
  "trace room_with_user = []"
  "timers room_with_user = []"
  "isRemoteUpdateRef room_with_user = False"
  "codeThrottleRef room_with_user = None"
  "pendingCodeRef room_with_user = None"
  "cursorThrottleRef room_with_user = None"
  "language room_with_user = Some ''javascript''"
  "participants room_with_user = [alice]"
  "joinsInFlight room_with_user = 0"
  by (simp_all add: room_with_user_def roomLoaded_def mountEditor_def initial_state_def)


subsection \<open>Every state the page reaches satisfies the invariant\<close>

lemma handleMessage_frame:
  assumes "handleMessage m s = Inr s'"
  shows "timers s' = timers s \<and> nextTimerId s' = nextTimerId s \<and> now s' = now s
    \<and> typingTimeoutRef s' = typingTimeoutRef s \<and> codeThrottleRef s' = codeThrottleRef s
    \<and> persistTimerRef s' = persistTimerRef s \<and> cursorThrottleRef s' = cursorThrottleRef s
    \<and> pendingCursorRef s' = pendingCursorRef s \<and> trace s' = trace s"
proof -
  have "handleMessage m s = Inr s'' \<Longrightarrow> ?thesis" if "s'' = s'" for s''
    unfolding that [symmetric] handleMessage_def
    by (cases "mdata m") (auto split: if_splits)
  then show ?thesis using assms by simp
qed

lemma wf_handleMessage:
  assumes wf: "wf_state s" and h: "handleMessage m s = Inr s'"
  shows "wf_state s'"
proof (rule wf_cong [OF wf])
  note fr = handleMessage_frame [OF h]
  show "timers s' = timers s" "nextTimerId s' = nextTimerId s" "now s' = now s"
    using fr by simp_all
  show "kref k s' = kref k s" for k using fr by (cases k) simp_all
  show "mtype x = ''cursor-update''" if "pendingCursorRef s' = Some x" for x
    using that fr wfD_pending [OF wf, of x] by simp
qed

lemma kref_editor_update: "kref k (s\<lparr>editor := e\<rparr>) = kref k s"
  by (cases k) simp_all

lemma wf_mountEditor:
  assumes wf: "wf_state s"
  shows "wf_state (mountEditor s)"
proof (rule wf_cong [OF wf])
  show "mtype m = ''cursor-update''" if "pendingCursorRef (mountEditor s) = Some m" for m
    using that wfD_pending [OF wf, of m] by (simp add: mountEditor_def)
qed (simp_all add: mountEditor_def kref_editor_update)

lemma joinResolved_frame:
  "timers (joinResolved res s) = timers s \<and> nextTimerId (joinResolved res s) = nextTimerId s
    \<and> now (joinResolved res s) = now s
    \<and> typingTimeoutRef (joinResolved res s) = typingTimeoutRef s
    \<and> codeThrottleRef (joinResolved res s) = codeThrottleRef s
    \<and> persistTimerRef (joinResolved res s) = persistTimerRef s
    \<and> cursorThrottleRef (joinResolved res s) = cursorThrottleRef s
    \<and> pendingCursorRef (joinResolved res s) = pendingCursorRef s"
  by (cases res) (simp_all add: joinResolved_def)

lemma wf_joinResolved:
  assumes wf: "wf_state s"
  shows "wf_state (joinResolved res s)"
proof (rule wf_cong [OF wf])
  note fr = joinResolved_frame [of res s]
  show "timers (joinResolved res s) = timers s" "nextTimerId (joinResolved res s) = nextTimerId s"
    "now (joinResolved res s) = now s"
    using fr by simp_all
  show "kref k (joinResolved res s) = kref k s" for k using fr by (cases k) simp_all
  show "mtype x = ''cursor-update''" if "pendingCursorRef (joinResolved res s) = Some x" for x
    using that fr wfD_pending [OF wf, of x] by simp
qed

lemma wf_apply_event:
  assumes wf: "wf_state s" and a: "apply_event e s = Inr s1"
  shows "wf_state s1"
proof (cases e)
  case (Edit c)
  show ?thesis
  proof (cases "editor s")
    case None
    then show ?thesis using a wf Edit by simp
  next
    case (Some cl)
    then show ?thesis using a Edit wf_handleCodeChange [OF wf, of cl c] by simp
  qed
next
  case (CursorMove cd)
  show ?thesis
  proof (cases "editor s")
    case None
    then show ?thesis using a wf CursorMove by simp
  next
    case (Some cl)
    then show ?thesis using a CursorMove wf_handleCursorChange [OF wf, of cl cd] by simp
  qed
next
  case (Message m)
  then obtain s' where h: "handleMessage m s = Inr s'"
    and s1: "s1 = (if language s' \<noteq> language s \<and> editor s' \<noteq> None then mountEditor s' else s')"
    using a by (cases "handleMessage m s") simp_all
  have "wf_state s'" by (rule wf_handleMessage [OF wf h])
  then show ?thesis using s1 wf_mountEditor [of s'] by simp
next
  case (JoinResolved res)
  then show ?thesis using a wf_joinResolved [OF wf, of res] by simp
next
  case (Wait d)
  then show ?thesis using a wf_wait [OF wf, of d] by simp
qed

lemma wf_run_events:
  assumes "wf_state s" and "run_events es s = Inr s'"
  shows "wf_state s'"
  using assms
proof (induction es arbitrary: s)
  case Nil
  then show ?case by simp
next
  case (Cons e es)
  from Cons.prems(2) obtain s1 where a: "apply_event e s = Inr s1" and r: "run_events es s1 = Inr s'"
    by (cases "apply_event e s") simp_all
  have "wf_state s1" by (rule wf_apply_event [OF Cons.prems(1) a])
  then show ?case using Cons.IH r by blast
qed

lemma wf_roomLoaded: "wf_state (roomLoaded c l ps (initial_state r u))"
  by (rule wf_no_timers) (simp_all add: roomLoaded_def mountEditor_def initial_state_def)

lemma wf_reachable: "run_events es (roomLoaded c l ps (initial_state r u)) = Inr s \<Longrightarrow> wf_state s"
  by (rule wf_run_events [OF wf_roomLoaded])

subsection \<open>The remote flag and the local edits\<close>



text \<open>
  The editor does not call \<^verbatim>\<open>onChange\<close> when a remote text is applied, so the call
  that finds the flag set is the user's next edit. In the room of \<open>alice\<close>: a
  \<^verbatim>\<open>code-update\<close> of \<open>bob\<close> is handled, then \<open>alice\<close> types. The three theorems that
  follow are evaluations of this one history, for three lengths of the wait after the edit.

  C2. The edit is the first of its window and its text is the final text, but it is not
  broadcast at once and no flush is set for it: 5000 ms later nothing has been sent and
  nothing is pending.
\<close>

theorem edit_after_remote_update_not_broadcast:
  "\<exists>s. run_events [Message remote_update, Edit ''remote!'', Wait 5000] room_with_user = Inr s
        \<and> code s = Some ''remote!''
        \<and> trace s = []
        \<and> pendingCodeRef s = None
        \<and> codeThrottleRef s = None
        \<and> timers s = []"
  by (simp add: remote_update_def handleMessage_def editor_room_with_user room_fields
      handleCodeChange_def wait_no_timers)

text \<open>
  C3. The edit is a single edit followed by 3000 ms of inactivity, made while not typing,
  but it emits no \<^verbatim>\<open>typing-start\<close> and no \<^verbatim>\<open>typing-stop\<close>: the typing flag is never
  set and no inactivity timer is set.
\<close>

theorem edit_after_remote_update_no_typing:
  "\<exists>s. run_events [Message remote_update, Edit ''remote!'', Wait 3000] room_with_user = Inr s
        \<and> trace s = []
        \<and> \<not> isTyping s
        \<and> typingTimeoutRef s = None"
  by (simp add: remote_update_def handleMessage_def editor_room_with_user room_fields
      handleCodeChange_def wait_no_timers)
    (simp add: room_with_user_def roomLoaded_def mountEditor_def initial_state_def)

text \<open>
  C4. The edit is a burst of one edit, but \<^verbatim>\<open>updateRoomCode\<close> is not called 1000 ms
  after it, and no write is scheduled: the text of the edit is never persisted.
\<close>

theorem edit_after_remote_update_not_persisted:
  "\<exists>s. run_events [Message remote_update, Edit ''remote!'', Wait 1000] room_with_user = Inr s
        \<and> code s = Some ''remote!''
        \<and> trace s = []
        \<and> persistTimerRef s = None
        \<and> pend KPersist s = []"
  by (simp add: remote_update_def handleMessage_def editor_room_with_user room_fields
      handleCodeChange_def wait_no_timers pend_def ktimers_def)
    (simp add: room_with_user_def roomLoaded_def mountEditor_def initial_state_def)

subsection \<open>Cursor broadcasts\<close>




end
